theory Spec2Isabelle
  imports Complex_Main "HOL-Library.Sublist" "HOL-Library.Log_Nat"
begin

section \<open>Python values\<close>

text \<open>
  The values that travel through the query path: the agent's result mapping and the
  dict that \<open>query_database\<close> returns hold strings, booleans, \<open>None\<close>, lists
  (the intermediate steps) and objects the code never looks into.  A dict is a partial
  map from its string keys.
\<close>

datatype pyval =
    PyNone
  | PyBool bool
  | PyInt int
  | PyStr string
  | PyList "pyval list"
  | PyObj string

type_synonym pydict = "string \<rightharpoonup> pyval"

text \<open>\<open>d.get(key, default)\<close>\<close>

definition dict_get :: "pydict \<Rightarrow> string \<Rightarrow> pyval \<Rightarrow> pyval" where
  "dict_get d k dflt = (case d k of None \<Rightarrow> dflt | Some v \<Rightarrow> v)"

text \<open>Truth value of an object in a condition.\<close>

fun truthy :: "pyval \<Rightarrow> bool" where
  "truthy PyNone = False"
| "truthy (PyBool b) = b"
| "truthy (PyInt i) = (i \<noteq> 0)"
| "truthy (PyStr s) = (s \<noteq> [])"
| "truthy (PyList xs) = (xs \<noteq> [])"
| "truthy (PyObj r) = True"

section \<open>String helpers\<close>

text \<open>\<open>s.startswith(p)\<close>\<close>

definition startswith :: "string \<Rightarrow> string \<Rightarrow> bool" where
  "startswith s p = prefix p s"

text \<open>
  \<open>s.replace(old, new)\<close> replaces every non-overlapping occurrence of \<open>old\<close>, scanning
  from the left.  For an empty \<open>old\<close> Python puts \<open>new\<close> before every character and
  at the end.
\<close>

function str_replace :: "string \<Rightarrow> string \<Rightarrow> string \<Rightarrow> string" where
  "str_replace s old new =
     (if old = [] then
        (case s of [] \<Rightarrow> new | c # cs \<Rightarrow> new @ c # str_replace cs old new)
      else if s = [] then []
      else if prefix old s then new @ str_replace (drop (length old) s) old new
      else hd s # str_replace (tl s) old new)"
  by pat_completeness auto
termination
  by (relation "measure (\<lambda>(s, old, new). length s)") auto

declare str_replace.simps [simp del]

text \<open>
  \<open>str.isspace\<close> on one character, for the code points below 256 that a \<open>char\<close>
  holds: tab, line feed, vertical tab, form feed, carriage return, the four separators
  28 to 31, space, next line (133) and no-break space (160).
\<close>

definition isspace :: "char \<Rightarrow> bool" where
  "isspace c = (of_char c \<in> {9, 10, 11, 12, 13, 28, 29, 30, 31, 32, 133, 160 :: nat})"

text \<open>\<open>s.strip()\<close>: leading and trailing whitespace removed.\<close>

definition strip :: "string \<Rightarrow> string" where
  "strip s = rev (dropWhile isspace (rev (dropWhile isspace s)))"

section \<open>database.py: get_database_path\<close>

definition get_database_path :: "string \<Rightarrow> string" where
  "get_database_path database_url =
     (if startswith database_url ''sqlite:///'' then
        (let path = str_replace database_url ''sqlite:///'' '''' in
         if startswith path ''./'' then path
         else if \<not> startswith path ''/'' then ''./'' @ path
         else path)
      else database_url)"

section \<open>agent.py: query_database\<close>

text \<open>
  The agent is the external collaborator.  Its \<open>invoke\<close> takes a mapping and either
  returns a mapping or raises; what it does may depend on the calls made before.  The
  handle records every call, so that a property can say how often the agent was
  invoked.  What is raised is an instance of \<open>Exception\<close>, with the text
  \<open>str(e)\<close>, or an exception outside that class (\<open>KeyboardInterrupt\<close>,
  \<open>SystemExit\<close>, \<open>GeneratorExit\<close>), with its name; \<open>except Exception\<close> catches
  the first kind only.
\<close>

datatype py_exception =
    Exception string
  | BaseException string

record agent =
  behaviour :: "pydict list \<Rightarrow> pydict \<Rightarrow> py_exception + pydict"
  calls :: "pydict list"

definition invoke :: "agent \<Rightarrow> pydict \<Rightarrow> (py_exception + pydict) \<times> agent" where
  "invoke ag arg = (behaviour ag (calls ag) arg, ag\<lparr>calls := calls ag @ [arg]\<rparr>)"

text \<open>
  \<open>query_database\<close> returns its dict (\<open>Inr\<close>), or lets through the exception that
  its handler does not catch (\<open>Inl\<close>).
\<close>

definition query_database :: "agent \<Rightarrow> string \<Rightarrow> (py_exception + pydict) \<times> agent" where
  "query_database ag query =
     (case invoke ag [''input'' \<mapsto> PyStr query] of
        (Inr result, ag') \<Rightarrow>
          (Inr [''success'' \<mapsto> PyBool True,
                ''result'' \<mapsto> dict_get result ''output'' (PyStr ''No result returned''),
                ''intermediate_steps'' \<mapsto>
                  dict_get result ''intermediate_steps'' (PyList [])],
           ag')
      | (Inl (Exception e), ag') \<Rightarrow>
          (Inr [''success'' \<mapsto> PyBool False,
                ''error'' \<mapsto> PyStr e,
                ''result'' \<mapsto> PyNone],
           ag')
      | (Inl (BaseException e), ag') \<Rightarrow> (Inl (BaseException e), ag'))"

section \<open>main.py: execute_query\<close>

text \<open>
  What the handler can raise: the two \<open>HTTPException\<close>s of the source, a
  \<open>KeyError\<close> from \<open>result[key]\<close>, the validation error of the response
  model when a field does not have its declared type, and an exception that
  \<open>query_database\<close> lets through.
\<close>

datatype api_error =
    HTTPException nat string
  | KeyError string
  | ValidationError string
  | Uncaught py_exception

record QueryResponse =
  success :: bool
  result :: "string option"
  error :: "string option"
  intermediate_steps :: "pyval list option"

text \<open>The declared field types \<open>Optional[str]\<close> and \<open>Optional[list]\<close>.\<close>

fun optional_str :: "string \<Rightarrow> pyval \<Rightarrow> api_error + string option" where
  "optional_str field PyNone = Inr None"
| "optional_str field (PyStr s) = Inr (Some s)"
| "optional_str field v = Inl (ValidationError field)"

fun optional_list :: "string \<Rightarrow> pyval \<Rightarrow> api_error + pyval list option" where
  "optional_list field PyNone = Inr None"
| "optional_list field (PyList xs) = Inr (Some xs)"
| "optional_list field v = Inl (ValidationError field)"

text \<open>\<open>d[key]\<close>\<close>

definition dict_item :: "pydict \<Rightarrow> string \<Rightarrow> api_error + pyval" where
  "dict_item d k = (case d k of None \<Rightarrow> Inl (KeyError k) | Some v \<Rightarrow> Inr v)"

text \<open>
  The handler reads the global \<open>agent_executor\<close> (\<open>None\<close> until startup has set it)
  and the request's query text.  It returns the response or the error raised, and the
  agent handle with the calls made.
\<close>

definition execute_query ::
  "agent option \<Rightarrow> string \<Rightarrow> (api_error + QueryResponse) \<times> agent option" where
  "execute_query agent_executor query =
     (case agent_executor of
        None \<Rightarrow> (Inl (HTTPException 503 ''Agent not initialized''), None)
      | Some ag \<Rightarrow>
          if strip query = [] then
            (Inl (HTTPException 400 ''Query cannot be empty''), Some ag)
          else
            (case query_database ag query of
               (Inl exn, ag') \<Rightarrow> (Inl (Uncaught exn), Some ag')
             | (Inr res, ag') \<Rightarrow>
               ((case dict_item res ''success'' of
                  Inl e \<Rightarrow> Inl e
                | Inr ok \<Rightarrow>
                    if truthy ok then
                      (case dict_item res ''result'' of
                         Inl e \<Rightarrow> Inl e
                       | Inr r \<Rightarrow>
                           (case optional_str ''result'' r of
                              Inl e \<Rightarrow> Inl e
                            | Inr r' \<Rightarrow>
                                (case optional_list ''intermediate_steps''
                                        (dict_get res ''intermediate_steps'' PyNone) of
                                   Inl e \<Rightarrow> Inl e
                                 | Inr steps \<Rightarrow>
                                     Inr \<lparr>success = True, result = r', error = None,
                                          intermediate_steps = steps\<rparr>)))
                    else
                      (case dict_item res ''error'' of
                         Inl e \<Rightarrow> Inl e
                       | Inr err \<Rightarrow>
                           (case optional_str ''error'' err of
                              Inl e \<Rightarrow> Inl e
                            | Inr err' \<Rightarrow>
                                Inr \<lparr>success = False, result = None, error = err',
                                     intermediate_steps = None\<rparr>))),
                Some ag')))"

section \<open>Python floats\<close>

text \<open>
  A Python float is an IEEE 754 double.  The model takes a float to be the rational
  number it stands for, and every operation to be the exact operation followed by
  rounding to the nearest double, ties to the even significand (53 bits).  The exponent
  range is not bounded: the floats of this program lie between \<open>4900 / 2^53\<close> and
  \<open>125000\<close> in magnitude, far from overflow and from the subnormal range.
\<close>

type_synonym pyfloat = rat

definition round_half_even :: "rat \<Rightarrow> int" where
  "round_half_even x =
     (let n = \<lfloor>x\<rfloor>; d = x - of_int n in
      if d < 1 / 2 then n
      else if 1 / 2 < d then n + 1
      else if even n then n else n + 1)"

text \<open>For \<open>x > 0\<close>, the integer \<open>e\<close> with \<open>2^e \<le> x < 2^(e+1)\<close>.\<close>

definition ilog2 :: "rat \<Rightarrow> int" where
  "ilog2 x =
     (case quotient_of x of (p, q) \<Rightarrow>
        let e = bitlen p - bitlen q in
        if power_int 2 e \<le> x then e else e - 1)"

definition nearest_double_pos :: "rat \<Rightarrow> pyfloat" where
  "nearest_double_pos x =
     (let e = ilog2 x - 52 in
      of_int (round_half_even (x / power_int 2 e)) * power_int 2 e)"

definition nearest_double :: "rat \<Rightarrow> pyfloat" where
  "nearest_double x =
     (if x = 0 then 0
      else if 0 < x then nearest_double_pos x
      else - nearest_double_pos (- x))"

definition float_add :: "pyfloat \<Rightarrow> pyfloat \<Rightarrow> pyfloat" where
  "float_add a b = nearest_double (a + b)"

definition float_sub :: "pyfloat \<Rightarrow> pyfloat \<Rightarrow> pyfloat" where
  "float_sub a b = nearest_double (a - b)"

definition float_mul :: "pyfloat \<Rightarrow> pyfloat \<Rightarrow> pyfloat" where
  "float_mul a b = nearest_double (a * b)"

text \<open>
  \<open>round(x, ndigits)\<close> on a float: the exact value of \<open>x\<close> is rounded to
  \<open>ndigits\<close> decimals, ties to even, and the decimal is converted back to the nearest
  double.
\<close>

definition py_round :: "pyfloat \<Rightarrow> nat \<Rightarrow> pyfloat" where
  "py_round x ndigits =
     nearest_double (of_int (round_half_even (x * 10 ^ ndigits)) / 10 ^ ndigits)"

section \<open>The random module\<close>

text \<open>
  The generator is a source of draws, read one after the other; which draws it gives is
  not known to the program.  Each call of the module consumes one draw: \<open>randint(a, b)\<close>
  returns an integer from \<open>a\<close> to \<open>b\<close>, \<open>choice(seq)\<close> an element of the sequence,
  \<open>random()\<close> a multiple of \<open>2^-53\<close> in \<open>[0, 1)\<close>, and \<open>uniform(a, b)\<close> is
  \<open>a + (b - a) * random()\<close> in float arithmetic.
\<close>

datatype py_error =
    IndexError
  | ValueError
  | IntegrityError string

record rng =
  draws :: "nat \<Rightarrow> nat"
  pos :: nat

definition next_draw :: "rng \<Rightarrow> nat \<times> rng" where
  "next_draw g = (draws g (pos g), g\<lparr>pos := Suc (pos g)\<rparr>)"

definition randint :: "int \<Rightarrow> int \<Rightarrow> rng \<Rightarrow> py_error + int \<times> rng" where
  "randint a b g =
     (if b < a then Inl ValueError
      else case next_draw g of (d, g') \<Rightarrow> Inr (a + int (d mod nat (b - a + 1)), g'))"

definition choice :: "'a list \<Rightarrow> rng \<Rightarrow> py_error + 'a \<times> rng" where
  "choice seq g =
     (if seq = [] then Inl IndexError
      else case next_draw g of (d, g') \<Rightarrow> Inr (seq ! (d mod length seq), g'))"

definition rng_random :: "rng \<Rightarrow> pyfloat \<times> rng" where
  "rng_random g =
     (case next_draw g of (d, g') \<Rightarrow> (of_nat (d mod 2 ^ 53) / 2 ^ 53, g'))"

definition uniform :: "pyfloat \<Rightarrow> pyfloat \<Rightarrow> rng \<Rightarrow> pyfloat \<times> rng" where
  "uniform a b g =
     (case rng_random g of (r, g') \<Rightarrow> (float_add a (float_mul (float_sub b a) r), g'))"

section \<open>database.py: init_database\<close>

text \<open>
  The two tables.  A calendar day is its ordinal number; the text that
  \<open>strftime("%Y-%m-%d")\<close> stores names the day and nothing else, so rows are compared
  on the day.
\<close>

type_synonym day = int

record sales_person =
  sp_id :: nat
  sp_name :: string
  sp_email :: string
  sp_region :: string
  sp_hire_date :: string
  sp_quota :: pyfloat

record sale =
  sale_id :: nat
  sales_person_id :: nat
  sale_date :: day
  amount :: pyfloat
  product_category :: string
  customer_name :: string

text \<open>
  The database file: each table is absent (\<open>None\<close>) or holds its rows in rowid order;
  for each table the largest rowid ever given, which \<open>AUTOINCREMENT\<close> keeps.
\<close>

record database =
  sales_people :: "sales_person list option"
  sales :: "sale list option"
  seq_sales_people :: nat
  seq_sales :: nat

definition empty_database :: database where
  "empty_database = \<lparr>sales_people = None, sales = None, seq_sales_people = 0, seq_sales = 0\<rparr>"

definition create_table_if_not_exists :: "'a list option \<Rightarrow> 'a list option" where
  "create_table_if_not_exists t = (case t of None \<Rightarrow> Some [] | Some rows \<Rightarrow> Some rows)"

definition table_rows :: "'a list option \<Rightarrow> 'a list" where
  "table_rows t = (case t of None \<Rightarrow> [] | Some rows \<Rightarrow> rows)"

text \<open>The rowid of a new row: one more than the largest rowid the table has ever had.\<close>

definition next_rowid :: "nat \<Rightarrow> nat list \<Rightarrow> nat" where
  "next_rowid seq ids = Suc (max seq (fold max ids 0))"

text \<open>\<open>INSERT INTO sales_people\<close>; the email column is \<open>UNIQUE\<close>.\<close>

definition insert_sales_person ::
  "string \<times> string \<times> string \<times> string \<times> pyfloat \<Rightarrow> database \<Rightarrow> py_error + database" where
  "insert_sales_person v db =
     (case v of (n, e, r, h, q) \<Rightarrow>
        let rows = table_rows (sales_people db) in
        if e \<in> set (map sp_email rows) then
          Inl (IntegrityError ''UNIQUE constraint failed: sales_people.email'')
        else
          let i = next_rowid (seq_sales_people db) (map sp_id rows) in
          Inr (db\<lparr>sales_people :=
                     Some (rows @ [\<lparr>sp_id = i, sp_name = n, sp_email = e, sp_region = r,
                                    sp_hire_date = h, sp_quota = q\<rparr>]),
                   seq_sales_people := i\<rparr>))"

fun executemany_sales_people ::
  "(string \<times> string \<times> string \<times> string \<times> pyfloat) list \<Rightarrow> database \<Rightarrow> py_error + database" where
  "executemany_sales_people [] db = Inr db"
| "executemany_sales_people (v # vs) db =
     (case insert_sales_person v db of
        Inl e \<Rightarrow> Inl e
      | Inr db' \<Rightarrow> executemany_sales_people vs db')"

text \<open>\<open>INSERT INTO sales\<close>\<close>

definition insert_sale ::
  "nat \<times> day \<times> pyfloat \<times> string \<times> string \<Rightarrow> database \<Rightarrow> database" where
  "insert_sale v db =
     (case v of (p, d, a, c, n) \<Rightarrow>
        let rows = table_rows (sales db);
            i = next_rowid (seq_sales db) (map sale_id rows) in
        db\<lparr>sales :=
              Some (rows @ [\<lparr>sale_id = i, sales_person_id = p, sale_date = d, amount = a,
                             product_category = c, customer_name = n\<rparr>]),
            seq_sales := i\<rparr>)"

fun executemany_sales ::
  "(nat \<times> day \<times> pyfloat \<times> string \<times> string) list \<Rightarrow> database \<Rightarrow> database" where
  "executemany_sales [] db = db"
| "executemany_sales (v # vs) db = executemany_sales vs (insert_sale v db)"

definition sample_sales_people :: "(string \<times> string \<times> string \<times> string \<times> pyfloat) list" where
  "sample_sales_people =
     [(''Alice Johnson'', ''alice.johnson@company.com'', ''North'', ''2022-01-15'', 100000),
      (''Bob Smith'', ''bob.smith@company.com'', ''South'', ''2022-03-20'', 120000),
      (''Carol Williams'', ''carol.williams@company.com'', ''East'', ''2021-11-10'', 95000),
      (''David Brown'', ''david.brown@company.com'', ''West'', ''2023-02-01'', 110000),
      (''Eva Davis'', ''eva.davis@company.com'', ''North'', ''2022-07-15'', 105000),
      (''Frank Miller'', ''frank.miller@company.com'', ''South'', ''2021-09-05'', 115000),
      (''Grace Wilson'', ''grace.wilson@company.com'', ''East'', ''2023-01-10'', 98000),
      (''Henry Moore'', ''henry.moore@company.com'', ''West'', ''2022-05-22'', 125000)]"

definition product_categories :: "string list" where
  "product_categories =
     [''Electronics'', ''Clothing'', ''Food'', ''Furniture'', ''Books'', ''Toys'']"

definition customer_names :: "string list" where
  "customer_names =
     [''Acme Corp'', ''Tech Solutions'', ''Global Industries'', ''Mega Store'',
      ''City Retail'', ''Prime Services'', ''Elite Group'', ''Super Market'',
      ''Best Buy Co'', ''Top Shelf Inc'', ''Quality Goods'', ''Premium Brands'']"

text \<open>
  The inner loop \<open>for _ in range(num_sales)\<close>: each round draws the sales person, the
  amount, the category and the customer, in this order, and appends one tuple to
  \<open>sales_data\<close>.
\<close>

fun generate_day_sales ::
  "nat \<Rightarrow> nat list \<Rightarrow> day \<Rightarrow> (nat \<times> day \<times> pyfloat \<times> string \<times> string) list \<Rightarrow> rng
     \<Rightarrow> py_error + (nat \<times> day \<times> pyfloat \<times> string \<times> string) list \<times> rng" where
  "generate_day_sales 0 sales_person_ids date sales_data g = Inr (sales_data, g)"
| "generate_day_sales (Suc k) sales_person_ids date sales_data g =
     (case choice sales_person_ids g of
        Inl e \<Rightarrow> Inl e
      | Inr (person, g1) \<Rightarrow>
          (case uniform 100 5000 g1 of (u, g2) \<Rightarrow>
             (case choice product_categories g2 of
                Inl e \<Rightarrow> Inl e
              | Inr (category, g3) \<Rightarrow>
                  (case choice customer_names g3 of
                     Inl e \<Rightarrow> Inl e
                   | Inr (customer, g4) \<Rightarrow>
                       generate_day_sales k sales_person_ids date
                         (sales_data @ [(person, date, py_round u 2, category, customer)])
                         g4))))"

text \<open>The outer loop \<open>for day_offset in range(90)\<close>, over the offsets still to do.\<close>

fun generate_sales ::
  "nat list \<Rightarrow> nat list \<Rightarrow> day \<Rightarrow> (nat \<times> day \<times> pyfloat \<times> string \<times> string) list \<Rightarrow> rng
     \<Rightarrow> py_error + (nat \<times> day \<times> pyfloat \<times> string \<times> string) list \<times> rng" where
  "generate_sales [] sales_person_ids start_date sales_data g = Inr (sales_data, g)"
| "generate_sales (day_offset # offsets) sales_person_ids start_date sales_data g =
     (case randint 5 15 g of
        Inl e \<Rightarrow> Inl e
      | Inr (num_sales, g1) \<Rightarrow>
          (case generate_day_sales (nat num_sales) sales_person_ids
                  (start_date + int day_offset) sales_data g1 of
             Inl e \<Rightarrow> Inl e
           | Inr (sales_data', g2) \<Rightarrow>
               generate_sales offsets sales_person_ids start_date sales_data' g2))"

text \<open>
  \<open>init_database\<close> on the database found at \<open>db_path\<close> (\<open>empty_database\<close> when
  the file is new), the state of the random generator and the day of \<open>datetime.now()\<close>.
  It returns the committed database and the generator, or the error raised, in which
  case nothing is committed.
\<close>

definition init_database :: "database \<Rightarrow> rng \<Rightarrow> day \<Rightarrow> py_error + database \<times> rng" where
  "init_database db0 g now =
     (let db = db0\<lparr>sales_people := create_table_if_not_exists (sales_people db0),
                   sales := create_table_if_not_exists (sales db0)\<rparr> in
      if length (table_rows (sales_people db)) = 0 then
        (case executemany_sales_people sample_sales_people db of
           Inl e \<Rightarrow> Inl e
         | Inr db1 \<Rightarrow>
             let sales_person_ids = map sp_id (table_rows (sales_people db1));
                 start_date = now - 90 in
             (case generate_sales [0..<90] sales_person_ids start_date [] g of
                Inl e \<Rightarrow> Inl e
              | Inr (sales_data, g') \<Rightarrow> Inr (executemany_sales sales_data db1, g')))
      else Inr (db, g))"

section \<open>Example inputs\<close>

text \<open>
  An agent handle with no calls so far whose \<open>invoke\<close> has the same outcome every time,
  the result mapping of the success example, and a result mapping with no field at all.
\<close>

definition const_agent :: "py_exception + pydict \<Rightarrow> agent" where
  "const_agent r = \<lparr>behaviour = (\<lambda>history arg. r), calls = []\<rparr>"

definition example_result :: pydict where
  "example_result =
     [''output'' \<mapsto> PyStr ''42 sales today'',
      ''intermediate_steps'' \<mapsto> PyList [PyObj ''step'']]"

definition empty_result :: pydict where
  "empty_result = Map.empty"

text \<open>
  A generator, and a database that already holds one sales person and has no sales
  table.
\<close>

definition example_rng :: rng where
  "example_rng = \<lparr>draws = (\<lambda>i. 2654435761 * i * i + 12345678901234567), pos = 0\<rparr>"

definition example_seeded :: database where
  "example_seeded =
     \<lparr>sales_people =
        Some [\<lparr>sp_id = 1, sp_name = ''Alice Johnson'', sp_email = ''alice.johnson@company.com'',
               sp_region = ''North'', sp_hire_date = ''2022-01-15'', sp_quota = 100000\<rparr>],
      sales = None, seq_sales_people = 1, seq_sales = 0\<rparr>"

section \<open>Properties of get_database_path\<close>

lemma str_replace_Nil: "old \<noteq> [] \<Longrightarrow> str_replace [] old new = []"
  by (simp add: str_replace.simps)

lemma str_replace_prefix:
  "old \<noteq> [] \<Longrightarrow> str_replace (old @ s) old new = new @ str_replace s old new"
  by (subst str_replace.simps) simp

lemma str_replace_Cons:
  "old \<noteq> [] \<Longrightarrow> \<not> prefix old (c # s) \<Longrightarrow>
     str_replace (c # s) old new = c # str_replace s old new"
  by (subst str_replace.simps) simp

text \<open>A string in which \<open>old\<close> does not occur is left as it is.\<close>

lemma str_replace_absent:
  "old \<noteq> [] \<Longrightarrow> \<not> sublist old s \<Longrightarrow> str_replace s old new = s"
proof (induction s)
  case Nil
  then show ?case by (simp add: str_replace_Nil)
next
  case (Cons c s)
  from Cons.prems(2) have np: "\<not> prefix old (c # s)"
    by (simp add: sublist_Cons_right)
  from Cons.prems(2) have "\<not> sublist old s"
    by (simp add: sublist_Cons_right)
  with Cons.IH Cons.prems(1) have "str_replace s old new = s" by simp
  with np Cons.prems(1) show ?case by (simp add: str_replace_Cons)
qed

lemma get_database_path_rest:
  assumes "\<not> sublist ''sqlite:///'' rest"
  shows "get_database_path (''sqlite:///'' @ rest) =
           (if startswith rest ''/'' \<or> startswith rest ''./'' then rest else ''./'' @ rest)"
proof -
  have "str_replace (''sqlite:///'' @ rest) ''sqlite:///'' '''' =
          str_replace rest ''sqlite:///'' ''''"
    using str_replace_prefix[of "''sqlite:///''" rest "''''"] by simp
  also have "\<dots> = rest" using assms by (simp add: str_replace_absent)
  finally have r: "str_replace (''sqlite:///'' @ rest) ''sqlite:///'' '''' = rest" .
  have p: "startswith (''sqlite:///'' @ rest) ''sqlite:///''"
    unfolding startswith_def by (rule prefixI) simp
  show ?thesis
    unfolding get_database_path_def Let_def r if_P[OF p] by simp
qed

lemma get_database_path_other:
  "\<not> startswith url ''sqlite:///'' \<Longrightarrow> get_database_path url = url"
  by (simp add: get_database_path_def)

lemma no_sqlite_in_dot_data: "\<not> sublist ''sqlite:///'' ''./data/sales.db''"
  by (simp add: sublist_Cons_right)

lemma no_sqlite_in_plain: "\<not> sublist ''sqlite:///'' ''sales.db''"
  by (simp add: sublist_Cons_right)

lemma no_sqlite_in_abs: "\<not> sublist ''sqlite:///'' ''/abs/sales.db''"
  by (simp add: sublist_Cons_right)

text \<open>
  C5, as the code has it.  The three URLs are mapped as stated when their scheme is
  \<open>sqlite\<close>: \<open>sqlite:///./data/sales.db\<close> to \<open>./data/sales.db\<close>,
  \<open>sqlite:///sales.db\<close> to \<open>./sales.db\<close> and \<open>sqlite:////abs/sales.db\<close> to
  \<open>/abs/sales.db\<close>.  In general, for a URL \<open>sqlite:///\<close> followed by a rest in which
  \<open>sqlite:///\<close> does not occur again, a rest with a leading slash or a leading \<open>./\<close>
  is returned as it is, and any other rest is returned behind \<open>./\<close>.  A URL that does
  not start with \<open>sqlite:///\<close> is returned unchanged.
\<close>

theorem get_database_path_sqlite:
  "get_database_path ''sqlite:///./data/sales.db'' = ''./data/sales.db'' \<and>
   get_database_path ''sqlite:///sales.db'' = ''./sales.db'' \<and>
   get_database_path ''sqlite:////abs/sales.db'' = ''/abs/sales.db'' \<and>
   (\<not> sublist ''sqlite:///'' rest \<longrightarrow>
      get_database_path (''sqlite:///'' @ rest) =
        (if startswith rest ''/'' \<or> startswith rest ''./'' then rest else ''./'' @ rest)) \<and>
   (\<not> startswith url ''sqlite:///'' \<longrightarrow> get_database_path url = url)"
proof -
  have a: "get_database_path ''sqlite:///./data/sales.db'' = ''./data/sales.db''"
    using get_database_path_rest[OF no_sqlite_in_dot_data] by (simp add: startswith_def)
  have b: "get_database_path ''sqlite:///sales.db'' = ''./sales.db''"
    using get_database_path_rest[OF no_sqlite_in_plain] by (simp add: startswith_def)
  have c: "get_database_path ''sqlite:////abs/sales.db'' = ''/abs/sales.db''"
    using get_database_path_rest[OF no_sqlite_in_abs] by (simp add: startswith_def)
  show ?thesis
  proof (intro conjI impI)
    show "get_database_path ''sqlite:///./data/sales.db'' = ''./data/sales.db''" by (rule a)
    show "get_database_path ''sqlite:///sales.db'' = ''./sales.db''" by (rule b)
    show "get_database_path ''sqlite:////abs/sales.db'' = ''/abs/sales.db''" by (rule c)
    show "get_database_path (''sqlite:///'' @ rest) =
        (if startswith rest ''/'' \<or> startswith rest ''./'' then rest else ''./'' @ rest)"
      if "\<not> sublist ''sqlite:///'' rest" using that by (rule get_database_path_rest)
    show "get_database_path url = url" if "\<not> startswith url ''sqlite:///''"
      using that by (rule get_database_path_other)
  qed
qed

theorem get_database_path_sqlite_witness:
  "\<not> sublist ''sqlite:///'' ''data/sales.db'' \<and>
   get_database_path (''sqlite:///'' @ ''data/sales.db'') = ''./data/sales.db'' \<and>
   \<not> startswith ''postgresql:///sales.db'' ''sqlite:///'' \<and>
   get_database_path ''postgresql:///sales.db'' = ''postgresql:///sales.db''"
proof -
  have h1: "\<not> sublist ''sqlite:///'' ''data/sales.db''" by (simp add: sublist_Cons_right)
  have h2: "\<not> startswith ''postgresql:///sales.db'' ''sqlite:///''"
    by (simp add: startswith_def)
  from get_database_path_sqlite[of "''data/sales.db''" "''postgresql:///sales.db''"] h1 h2
  show ?thesis by (simp add: startswith_def)
qed

text \<open>
  C5 as stated fails: with the scheme written \<open>scheme\<close>, the URL is returned as it
  came, not as \<open>./sales.db\<close>.
\<close>

theorem get_database_path_scheme_counterexample:
  "get_database_path ''scheme:///sales.db'' = ''scheme:///sales.db'' \<and>
   get_database_path ''scheme:///sales.db'' \<noteq> ''./sales.db''"
  by (simp add: get_database_path_def startswith_def)

section \<open>Properties of the query path\<close>

lemma dropWhile_all_iff:
  "(\<forall>c\<in>set (dropWhile P xs). P c) \<longleftrightarrow> (\<forall>c\<in>set xs. P c)"
proof
  assume a: "\<forall>c\<in>set (dropWhile P xs). P c"
  have "dropWhile P xs = []"
  proof (rule ccontr)
    assume n: "dropWhile P xs \<noteq> []"
    then have "\<not> P (hd (dropWhile P xs))" by (rule hd_dropWhile)
    moreover from n have "hd (dropWhile P xs) \<in> set (dropWhile P xs)" by simp
    ultimately show False using a by blast
  qed
  then show "\<forall>c\<in>set xs. P c" by simp
next
  assume "\<forall>c\<in>set xs. P c"
  then show "\<forall>c\<in>set (dropWhile P xs). P c" by (blast dest: set_dropWhileD)
qed

text \<open>\<open>strip\<close> leaves nothing exactly of the strings that are all whitespace.\<close>

lemma strip_blank: "strip s = [] \<longleftrightarrow> (\<forall>c\<in>set s. isspace c)"
  unfolding strip_def by (simp add: dropWhile_all_iff)

lemma dict_item_not_http: "dict_item d k \<noteq> Inl (HTTPException n s)"
  by (simp add: dict_item_def split: option.splits)

lemma optional_str_not_http: "optional_str f v \<noteq> Inl (HTTPException n s)"
  by (cases v) simp_all

lemma optional_list_not_http: "optional_list f v \<noteq> Inl (HTTPException n s)"
  by (cases v) simp_all

lemma strip_example: "strip ''How many sales today?'' \<noteq> []"
  by (simp add: strip_blank isspace_def)

text \<open>
  C6, as the code has it.  While the agent handle is initialized, a query that is empty
  or all whitespace is answered with the error 400 \<open>Query cannot be empty\<close>, and the
  handle comes back as it was: no call of the agent has been added.
\<close>

theorem execute_query_blank:
  "\<forall>c\<in>set query. isspace c \<Longrightarrow>
     execute_query (Some ag) query =
       (Inl (HTTPException 400 ''Query cannot be empty''), Some ag)"
  by (simp add: execute_query_def strip_blank)

theorem execute_query_blank_witness:
  "list_all isspace ''   '' \<and>
   execute_query (Some (const_agent (Inr example_result))) ''   '' =
     (Inl (HTTPException 400 ''Query cannot be empty''),
      Some (const_agent (Inr example_result)))"
proof -
  have h: "\<forall>c\<in>set ''   ''. isspace c" by (simp add: isspace_def)
  have l: "list_all isspace ''   ''" by (simp add: isspace_def)
  from l execute_query_blank[OF h] show ?thesis by (rule conjI)
qed

text \<open>
  C6 as stated fails: the handler tests the agent handle first, so the empty query that
  arrives before the handle is set gets the error 503 \<open>Agent not initialized\<close>, not the
  invalid-input error.
\<close>

theorem execute_query_blank_counterexample:
  "fst (execute_query None '''') = Inl (HTTPException 503 ''Agent not initialized'') \<and>
   fst (execute_query None '''') \<noteq> Inl (HTTPException 400 ''Query cannot be empty'')"
  by (simp add: execute_query_def)




text \<open>
  C8, as the code has it.  When the agent returns a mapping whose \<open>output\<close> is a text
  and whose \<open>intermediate_steps\<close> is a list, \<open>query_database\<close> returns the dict
  with \<open>success\<close> true, \<open>result\<close> the text and \<open>intermediate_steps\<close> the list,
  after one call of the agent; and for a query that is not blank \<open>execute_query\<close>
  answers with the response that has the same three values and no error.
\<close>

theorem query_database_success:
  assumes "behaviour ag (calls ag) [''input'' \<mapsto> PyStr query] = Inr res"
    and "res ''output'' = Some (PyStr text)"
    and "res ''intermediate_steps'' = Some (PyList steps)"
  shows "query_database ag query =
           (Inr [''success'' \<mapsto> PyBool True, ''result'' \<mapsto> PyStr text,
                 ''intermediate_steps'' \<mapsto> PyList steps],
            ag\<lparr>calls := calls ag @ [[''input'' \<mapsto> PyStr query]]\<rparr>) \<and>
         (strip query \<noteq> [] \<longrightarrow>
            execute_query (Some ag) query =
              (Inr \<lparr>success = True, result = Some text, error = None,
                    intermediate_steps = Some steps\<rparr>,
               Some (ag\<lparr>calls := calls ag @ [[''input'' \<mapsto> PyStr query]]\<rparr>)))"
proof -
  have q: "query_database ag query =
           (Inr [''success'' \<mapsto> PyBool True, ''result'' \<mapsto> PyStr text,
                 ''intermediate_steps'' \<mapsto> PyList steps],
            ag\<lparr>calls := calls ag @ [[''input'' \<mapsto> PyStr query]]\<rparr>)"
    using assms by (simp add: query_database_def invoke_def dict_get_def)
  have "execute_query (Some ag) query =
              (Inr \<lparr>success = True, result = Some text, error = None,
                    intermediate_steps = Some steps\<rparr>,
               Some (ag\<lparr>calls := calls ag @ [[''input'' \<mapsto> PyStr query]]\<rparr>))"
    if "strip query \<noteq> []"
    using that by (simp add: execute_query_def q dict_item_def dict_get_def)
  with q show ?thesis by blast
qed

theorem query_database_success_witness:
  "behaviour (const_agent (Inr example_result)) (calls (const_agent (Inr example_result)))
       [''input'' \<mapsto> PyStr ''How many sales today?''] = Inr example_result \<and>
   example_result ''output'' = Some (PyStr ''42 sales today'') \<and>
   example_result ''intermediate_steps'' = Some (PyList [PyObj ''step'']) \<and>
   strip ''How many sales today?'' \<noteq> [] \<and>
   fst (query_database (const_agent (Inr example_result)) ''How many sales today?'') =
     Inr [''success'' \<mapsto> PyBool True, ''result'' \<mapsto> PyStr ''42 sales today'',
          ''intermediate_steps'' \<mapsto> PyList [PyObj ''step'']] \<and>
   fst (execute_query (Some (const_agent (Inr example_result))) ''How many sales today?'') =
     Inr \<lparr>success = True, result = Some ''42 sales today'', error = None,
          intermediate_steps = Some [PyObj ''step'']\<rparr>"
proof -
  have h1: "behaviour (const_agent (Inr example_result))
       (calls (const_agent (Inr example_result)))
       [''input'' \<mapsto> PyStr ''How many sales today?''] = Inr example_result"
    by (simp add: const_agent_def)
  have h2: "example_result ''output'' = Some (PyStr ''42 sales today'')"
    by (simp add: example_result_def)
  have h3: "example_result ''intermediate_steps'' = Some (PyList [PyObj ''step''])"
    by (simp add: example_result_def)
  note t = query_database_success[OF h1 h2 h3]
  from t have a: "fst (query_database (const_agent (Inr example_result))
      ''How many sales today?'') =
     Inr [''success'' \<mapsto> PyBool True, ''result'' \<mapsto> PyStr ''42 sales today'',
          ''intermediate_steps'' \<mapsto> PyList [PyObj ''step'']]"
    by simp
  from t strip_example
  have b: "fst (execute_query (Some (const_agent (Inr example_result)))
      ''How many sales today?'') =
     Inr \<lparr>success = True, result = Some ''42 sales today'', error = None,
          intermediate_steps = Some [PyObj ''step'']\<rparr>"
    by simp
  from h1 h2 h3 strip_example a b show ?thesis by (intro conjI)
qed

text \<open>
  C8 as stated fails: the dict that comes back has no key \<open>steps\<close>; the steps are
  under the key \<open>intermediate_steps\<close>.
\<close>

theorem query_database_steps_counterexample:
  "fst (query_database (const_agent (Inr example_result)) ''How many sales today?'') =
     Inr [''success'' \<mapsto> PyBool True, ''result'' \<mapsto> PyStr ''42 sales today'',
          ''intermediate_steps'' \<mapsto> PyList [PyObj ''step'']] \<and>
   projr (fst (query_database (const_agent (Inr example_result)) ''How many sales today?''))
     ''steps'' = None \<and>
   projr (fst (query_database (const_agent (Inr example_result)) ''How many sales today?''))
     ''intermediate_steps'' = Some (PyList [PyObj ''step''])"
  by (simp add: query_database_def invoke_def const_agent_def example_result_def dict_get_def)

text \<open>
  C9.  While the agent handle is not set, every query is answered with the error 503
  \<open>Agent not initialized\<close> and there is still no handle, so no agent has been called.
  This error is not the invalid-input error, and a request that finds the handle set
  never gets it, whatever the agent does: not the invalid-input answer, not the answer to
  an agent failure.
\<close>

theorem execute_query_not_initialized:
  "execute_query None query = (Inl (HTTPException 503 ''Agent not initialized''), None) \<and>
   HTTPException 503 ''Agent not initialized'' \<noteq> HTTPException 400 ''Query cannot be empty'' \<and>
   fst (execute_query (Some ag) query') \<noteq> Inl (HTTPException 503 ''Agent not initialized'')"
proof -
  have "fst (execute_query (Some ag) query') \<noteq>
          Inl (HTTPException 503 ''Agent not initialized'')"
    using dict_item_not_http optional_str_not_http optional_list_not_http
    by (auto simp: execute_query_def split: prod.splits sum.splits if_splits)
  then show ?thesis by (simp add: execute_query_def)
qed

text \<open>
  C10.  When the agent returns a mapping without \<open>output\<close>, \<open>query_database\<close>
  returns a dict, and it has \<open>success\<close> true, \<open>result\<close> the string
  \<open>No result returned\<close> and no \<open>error\<close>; when \<open>intermediate_steps\<close> is missing
  too, it has the empty list there.
\<close>

theorem query_database_fallback:
  assumes "behaviour ag (calls ag) [''input'' \<mapsto> PyStr query] = Inr res"
    and "res ''output'' = None"
  shows "\<exists>d. fst (query_database ag query) = Inr d \<and>
           d ''success'' = Some (PyBool True) \<and>
           d ''result'' = Some (PyStr ''No result returned'') \<and>
           d ''error'' = None \<and>
           (res ''intermediate_steps'' = None \<longrightarrow>
              d ''intermediate_steps'' = Some (PyList []))"
  using assms by (simp add: query_database_def invoke_def dict_get_def)

theorem query_database_fallback_witness:
  "behaviour (const_agent (Inr empty_result)) (calls (const_agent (Inr empty_result)))
       [''input'' \<mapsto> PyStr ''How many sales today?''] = Inr empty_result \<and>
   empty_result ''output'' = None \<and>
   empty_result ''intermediate_steps'' = None \<and>
   (\<exists>d. fst (query_database (const_agent (Inr empty_result)) ''How many sales today?'') =
           Inr d \<and>
         d ''success'' = Some (PyBool True) \<and>
         d ''result'' = Some (PyStr ''No result returned'') \<and>
         d ''error'' = None \<and>
         d ''intermediate_steps'' = Some (PyList []))"
proof -
  have h1: "behaviour (const_agent (Inr empty_result)) (calls (const_agent (Inr empty_result)))
       [''input'' \<mapsto> PyStr ''How many sales today?''] = Inr empty_result"
    by (simp add: const_agent_def)
  have h2: "empty_result ''output'' = None" by (simp add: empty_result_def)
  have h3: "empty_result ''intermediate_steps'' = None" by (simp add: empty_result_def)
  from query_database_fallback[OF h1 h2] h3
  have "\<exists>d. fst (query_database (const_agent (Inr empty_result)) ''How many sales today?'') =
           Inr d \<and>
         d ''success'' = Some (PyBool True) \<and>
         d ''result'' = Some (PyStr ''No result returned'') \<and>
         d ''error'' = None \<and>
         d ''intermediate_steps'' = Some (PyList [])"
    by auto
  with h1 h2 h3 show ?thesis by (intro conjI)
qed

section \<open>Properties of the float arithmetic\<close>

lemma round_half_even_cases:
  "round_half_even x = \<lfloor>x\<rfloor> \<or> (round_half_even x = \<lfloor>x\<rfloor> + 1 \<and> of_int \<lfloor>x\<rfloor> < x)"
  by (auto simp: round_half_even_def Let_def)

lemma round_half_even_ge: "of_int n \<le> x \<Longrightarrow> n \<le> round_half_even x"
proof -
  assume "of_int n \<le> x"
  then have "n \<le> \<lfloor>x\<rfloor>" by (simp add: le_floor_iff)
  with round_half_even_cases[of x] show ?thesis by auto
qed

lemma round_half_even_le: "x \<le> of_int n \<Longrightarrow> round_half_even x \<le> n"
proof -
  assume a: "x \<le> of_int n"
  then have f: "\<lfloor>x\<rfloor> \<le> n" by (simp add: floor_le_iff) 
  from round_half_even_cases[of x] show ?thesis
  proof
    assume "round_half_even x = \<lfloor>x\<rfloor>"
    with f show ?thesis by simp
  next
    assume b: "round_half_even x = \<lfloor>x\<rfloor> + 1 \<and> of_int \<lfloor>x\<rfloor> < x"
    then have "of_int \<lfloor>x\<rfloor> < (of_int n :: rat)" using a by linarith
    then have "\<lfloor>x\<rfloor> < n" by simp
    with b show ?thesis by simp
  qed
qed

lemma ilog2_bounds:
  assumes "0 < x"
  shows "power_int 2 (ilog2 x) \<le> x \<and> x < power_int 2 (ilog2 x + 1)"
proof -
  obtain p q where pq: "quotient_of x = (p, q)" by (cases "quotient_of x")
  then have q: "0 < q" by (rule quotient_of_denom_pos)
  from pq have x: "x = of_int p / of_int q" by (rule quotient_of_div)
  with assms q have p: "0 < p" by (simp add: zero_less_divide_iff)
  define a where "a = bitlen p"
  define b where "b = bitlen q"
  from bitlen_bounds[OF p] have pa: "2 ^ nat (a - 1) \<le> p" "p < 2 ^ nat a"
    by (simp_all add: a_def)
  from bitlen_bounds[OF q] have qb: "2 ^ nat (b - 1) \<le> q" "q < 2 ^ nat b"
    by (simp_all add: b_def)
  from p have a1: "1 \<le> a" unfolding a_def using bitlen_eq_zero_iff[of p] bitlen_nonneg[of p]
    by linarith
  from q have b1: "1 \<le> b" unfolding b_def using bitlen_eq_zero_iff[of q] bitlen_nonneg[of q]
    by linarith
  have pa': "power_int 2 (a - 1) \<le> (of_int p :: rat)" "(of_int p :: rat) < power_int 2 a"
  proof -
    have "(of_int (2 ^ nat (a - 1)) :: rat) \<le> of_int p" using pa(1) by (simp only: of_int_le_iff)
    then show "power_int 2 (a - 1) \<le> (of_int p :: rat)"
      using a1 by (simp add: power_int_nonneg_exp)
    have "(of_int p :: rat) < of_int (2 ^ nat a)" using pa(2) by (simp only: of_int_less_iff)
    then show "(of_int p :: rat) < power_int 2 a"
      using a1 by (simp add: power_int_nonneg_exp)
  qed
  have qb': "power_int 2 (b - 1) \<le> (of_int q :: rat)" "(of_int q :: rat) < power_int 2 b"
  proof -
    have "(of_int (2 ^ nat (b - 1)) :: rat) \<le> of_int q" using qb(1) by (simp only: of_int_le_iff)
    then show "power_int 2 (b - 1) \<le> (of_int q :: rat)"
      using b1 by (simp add: power_int_nonneg_exp)
    have "(of_int q :: rat) < of_int (2 ^ nat b)" using qb(2) by (simp only: of_int_less_iff)
    then show "(of_int q :: rat) < power_int 2 b"
      using b1 by (simp add: power_int_nonneg_exp)
  qed
  have qpos: "(0::rat) < of_int q" using q by simp
  have up: "x < power_int 2 (a - b + 1)"
  proof -
    have "power_int 2 (a - b + 1) * (of_int q :: rat) \<ge> power_int 2 (a - b + 1) * power_int 2 (b - 1)"
      using qb'(1) by (simp add: mult_left_mono)
    also have "power_int 2 (a - b + 1) * power_int 2 (b - 1) = (power_int 2 a :: rat)"
      by (simp add: power_int_add[symmetric])
    finally have "(of_int p :: rat) < power_int 2 (a - b + 1) * of_int q" using pa'(2) by linarith
    then show ?thesis unfolding x using qpos by (simp add: pos_divide_less_eq)
  qed
  have lo: "power_int 2 (a - b - 1) < x"
  proof -
    have "power_int 2 (a - b - 1) * (of_int q :: rat) < power_int 2 (a - b - 1) * power_int 2 b"
      using qb'(2) by (simp add: mult_strict_left_mono)
    also have "power_int 2 (a - b - 1) * power_int 2 b = (power_int 2 (a - 1) :: rat)"
      by (simp add: power_int_add[symmetric])
    finally have "power_int 2 (a - b - 1) * of_int q < (of_int p :: rat)" using pa'(1) by linarith
    then show ?thesis unfolding x using qpos by (simp add: pos_less_divide_eq)
  qed
  show ?thesis
  proof (cases "power_int 2 (a - b) \<le> x")
    case True
    then have "ilog2 x = a - b" by (simp add: ilog2_def pq a_def b_def Let_def)
    with True up show ?thesis by simp
  next
    case False
    then have "ilog2 x = a - b - 1" by (simp add: ilog2_def pq a_def b_def Let_def)
    with False lo show ?thesis by simp
  qed
qed

lemma two_powi_split: "power_int 2 a * power_int 2 (b - a) = (power_int 2 b :: rat)"
  by (simp add: power_int_add[symmetric])

lemma scaled_ge_two_52:
  assumes "0 < x"
  shows "of_int (2 ^ 52) \<le> x / power_int 2 (ilog2 x - 52)"
proof -
  define s :: rat where "s = power_int 2 (ilog2 x - 52)"
  have s: "0 < s" by (simp add: s_def)
  have "power_int 2 52 * s = power_int 2 (ilog2 x)"
    unfolding s_def by (rule two_powi_split)
  with ilog2_bounds[OF assms] have "power_int 2 52 * s \<le> x" by simp
  then have "power_int 2 52 \<le> x / s" using s by (simp add: pos_le_divide_eq)
  then show ?thesis by (simp add: s_def)
qed

lemma round_scaled_ge_two_52:
  assumes "0 < x"
  shows "2 ^ 52 \<le> round_half_even (x / power_int 2 (ilog2 x - 52))"
  using scaled_ge_two_52[OF assms] by (rule round_half_even_ge)

lemma nearest_double_pos_ge_power:
  assumes "0 < x"
  shows "power_int 2 (ilog2 x) \<le> nearest_double_pos x"
proof -
  define s :: rat where "s = power_int 2 (ilog2 x - 52)"
  define r where "r = round_half_even (x / s)"
  have s: "0 < s" by (simp add: s_def)
  have "2 ^ 52 \<le> r" unfolding r_def s_def by (rule round_scaled_ge_two_52[OF assms])
  then have "(of_int (2 ^ 52) :: rat) \<le> of_int r" by (simp only: of_int_le_iff)
  then have "power_int 2 52 \<le> (of_int r :: rat)" by simp
  then have "power_int 2 52 * s \<le> of_int r * s" using s by (simp only: mult_le_cancel_right_pos)
  moreover have "power_int 2 52 * s = power_int 2 (ilog2 x)"
    unfolding s_def by (rule two_powi_split)
  moreover have "nearest_double_pos x = of_int r * s"
    by (simp add: nearest_double_pos_def Let_def r_def s_def)
  ultimately show ?thesis by simp
qed

lemma nearest_double_pos_positive: "0 < x \<Longrightarrow> 0 < nearest_double_pos x"
proof -
  assume "0 < x"
  from nearest_double_pos_ge_power[OF this]
  have "power_int 2 (ilog2 x) \<le> nearest_double_pos x" .
  moreover have "(0::rat) < power_int 2 (ilog2 x)" by simp
  ultimately show ?thesis by linarith
qed

lemma int_as_scaled:
  assumes "e \<le> 0"
  shows "(of_int n :: rat) / power_int 2 e = of_int (n * 2 ^ nat (- e))"
proof -
  have "power_int 2 e = 1 / (power_int 2 (- e) :: rat)"
    using power_int_minus_divide[of "2::rat" "- e"] by simp
  also have "power_int 2 (- e) = (2 ^ nat (- e) :: rat)"
    using assms by (simp add: power_int_nonneg_exp)
  finally show ?thesis by simp
qed

lemma nearest_double_pos_lower:
  assumes "0 < x" and "0 < n" and "n \<le> 2 ^ 53" and "of_int n \<le> x"
  shows "of_int n \<le> nearest_double_pos x"
proof (cases "ilog2 x - 52 \<le> 0")
  case True
  define s :: rat where "s = power_int 2 (ilog2 x - 52)"
  define r where "r = round_half_even (x / s)"
  define k where "k = n * 2 ^ nat (- (ilog2 x - 52))"
  have s: "0 < s" by (simp add: s_def)
  have ks: "(of_int n :: rat) / s = of_int k"
    unfolding s_def k_def by (rule int_as_scaled[OF True])
  have "(of_int n :: rat) / s \<le> x / s"
    using assms(4) s by (simp only: divide_le_cancel) simp
  then have "of_int k \<le> x / s" by (simp only: ks)
  then have "k \<le> r" unfolding r_def by (rule round_half_even_ge)
  then have "(of_int k :: rat) \<le> of_int r" by (simp only: of_int_le_iff)
  then have "(of_int k :: rat) * s \<le> of_int r * s"
    using s by (simp only: mult_le_cancel_right_pos)
  moreover have "(of_int k :: rat) * s = of_int n"
    using ks s by (simp add: nonzero_divide_eq_eq)
  moreover have "nearest_double_pos x = of_int r * s"
    by (simp add: nearest_double_pos_def Let_def r_def s_def)
  ultimately show ?thesis by simp
next
  case False
  then have "53 \<le> ilog2 x" by simp
  then have "(power_int 2 53 :: rat) \<le> power_int 2 (ilog2 x)"
    by (intro power_int_increasing) simp_all
  moreover have "(of_int n :: rat) \<le> power_int 2 53"
  proof -
    have "(of_int n :: rat) \<le> of_int (2 ^ 53)" using assms(3) by (simp only: of_int_le_iff)
    then show ?thesis by simp
  qed
  ultimately show ?thesis using nearest_double_pos_ge_power[OF assms(1)] by linarith
qed

lemma nearest_double_pos_upper:
  assumes "0 < x" and "0 < n" and "n \<le> 2 ^ 53" and "x \<le> of_int n"
  shows "nearest_double_pos x \<le> of_int n"
proof (cases "ilog2 x - 52 \<le> 0")
  case True
  define s :: rat where "s = power_int 2 (ilog2 x - 52)"
  define r where "r = round_half_even (x / s)"
  define k where "k = n * 2 ^ nat (- (ilog2 x - 52))"
  have s: "0 < s" by (simp add: s_def)
  have ks: "(of_int n :: rat) / s = of_int k"
    unfolding s_def k_def by (rule int_as_scaled[OF True])
  have "x / s \<le> (of_int n :: rat) / s"
    using assms(4) s by (simp only: divide_le_cancel) simp
  then have "x / s \<le> of_int k" by (simp only: ks)
  then have "r \<le> k" unfolding r_def by (rule round_half_even_le)
  then have "(of_int r :: rat) \<le> of_int k" by (simp only: of_int_le_iff)
  then have "(of_int r :: rat) * s \<le> of_int k * s"
    using s by (simp only: mult_le_cancel_right_pos)
  moreover have "(of_int k :: rat) * s = of_int n"
    using ks s by (simp add: nonzero_divide_eq_eq)
  moreover have "nearest_double_pos x = of_int r * s"
    by (simp add: nearest_double_pos_def Let_def r_def s_def)
  ultimately show ?thesis by simp
next
  case False
  define s :: rat where "s = power_int 2 (ilog2 x - 52)"
  define r where "r = round_half_even (x / s)"
  have s: "0 < s" by (simp add: s_def)
  from False have "53 \<le> ilog2 x" by simp
  then have a: "(power_int 2 53 :: rat) \<le> power_int 2 (ilog2 x)"
    by (intro power_int_increasing) simp_all
  have b: "(of_int n :: rat) \<le> power_int 2 53"
  proof -
    have "(of_int n :: rat) \<le> of_int (2 ^ 53)" using assms(3) by (simp only: of_int_le_iff)
    then show ?thesis by simp
  qed
  from ilog2_bounds[OF assms(1)] have c: "power_int 2 (ilog2 x) \<le> x" by simp
  from a b c assms(4) have xe: "x = power_int 2 (ilog2 x)" by linarith
  have "power_int 2 52 * s = power_int 2 (ilog2 x)"
    unfolding s_def by (rule two_powi_split)
  with xe have "power_int 2 52 * s = x" by simp
  then have "x / s = power_int 2 52" using s by (simp add: nonzero_divide_eq_eq)
  then have m: "x / s = of_int (2 ^ 52)" by simp
  have "r = 2 ^ 52"
  proof (rule antisym)
    show "r \<le> 2 ^ 52" unfolding r_def by (rule round_half_even_le) (simp only: m)
    show "2 ^ 52 \<le> r" unfolding r_def s_def by (rule round_scaled_ge_two_52[OF assms(1)])
  qed
  moreover have "nearest_double_pos x = of_int r * s"
    by (simp add: nearest_double_pos_def Let_def r_def s_def)
  ultimately have "nearest_double_pos x = of_int (2 ^ 52) * s" by simp
  also have "\<dots> = x / s * s" by (simp only: m)
  also have "\<dots> = x" using s by simp
  finally show ?thesis using assms(4) by simp
qed

lemma nearest_double_lower:
  "0 < n \<Longrightarrow> n \<le> 2 ^ 53 \<Longrightarrow> of_int n \<le> x \<Longrightarrow> of_int n \<le> nearest_double x"
proof -
  assume n: "0 < n" "n \<le> 2 ^ 53" and x: "of_int n \<le> x"
  from n(1) have "(0::rat) < of_int n" by simp
  with x have "0 < x" by linarith
  with nearest_double_pos_lower[OF this n x] show ?thesis by (simp add: nearest_double_def)
qed

lemma nearest_double_upper:
  "0 < n \<Longrightarrow> n \<le> 2 ^ 53 \<Longrightarrow> 0 \<le> x \<Longrightarrow> x \<le> of_int n \<Longrightarrow> nearest_double x \<le> of_int n"
proof -
  assume n: "0 < n" "n \<le> 2 ^ 53" and x: "0 \<le> x" "x \<le> of_int n"
  show ?thesis
  proof (cases "x = 0")
    case True
    with n(1) show ?thesis by (simp add: nearest_double_def)
  next
    case False
    with x(1) have "0 < x" by simp
    with nearest_double_pos_upper[OF this n x(2)] show ?thesis by (simp add: nearest_double_def)
  qed
qed

lemma nearest_double_nonneg: "0 \<le> x \<Longrightarrow> 0 \<le> nearest_double x"
  using nearest_double_pos_positive[of x] by (auto simp: nearest_double_def less_imp_le)

lemma nearest_double_int:
  "0 < n \<Longrightarrow> n \<le> 2 ^ 53 \<Longrightarrow> nearest_double (of_int n) = of_int n"
proof (rule antisym)
  assume n: "0 < n" "n \<le> 2 ^ 53"
  show "nearest_double (of_int n) \<le> of_int n"
    using n by (intro nearest_double_upper) simp_all
  show "of_int n \<le> nearest_double (of_int n)"
    using n by (intro nearest_double_lower) simp_all
qed

lemma round_half_even_error: "\<bar>of_int (round_half_even x) - x\<bar> \<le> 1 / 2"
proof -
  have "of_int \<lfloor>x\<rfloor> \<le> x" "x < of_int \<lfloor>x\<rfloor> + 1" by linarith+
  then show ?thesis by (auto simp: round_half_even_def Let_def)
qed

lemma round_half_even_near:
  assumes "\<bar>x - of_int n\<bar> < 1 / 2"
  shows "round_half_even x = n"
proof -
  from round_half_even_error[of x] assms
  have "\<bar>(of_int (round_half_even x) :: rat) - of_int n\<bar> < 1" by linarith
  then have "\<bar>(of_int (round_half_even x - n) :: rat)\<bar> < of_int 1" by simp
  then have "\<bar>round_half_even x - n\<bar> < 1"
    by (simp only: of_int_abs[symmetric] of_int_less_iff)
  then show ?thesis by linarith
qed

lemma nearest_double_pos_error:
  assumes "0 < x"
  shows "\<bar>nearest_double_pos x - x\<bar> \<le> power_int 2 (ilog2 x - 52) / 2"
proof -
  define s :: rat where "s = power_int 2 (ilog2 x - 52)"
  define r where "r = round_half_even (x / s)"
  have s: "0 < s" by (simp add: s_def)
  have nd: "nearest_double_pos x = of_int r * s"
    by (simp add: nearest_double_pos_def Let_def r_def s_def)
  have le: "\<bar>of_int r - x / s\<bar> \<le> 1 / 2" unfolding r_def by (rule round_half_even_error)
  have "(of_int r - x / s) * s = of_int r * s - x" using s by (simp add: left_diff_distrib)
  then have "\<bar>of_int r * s - x\<bar> = \<bar>(of_int r - x / s) * s\<bar>" by simp
  also have "\<dots> = \<bar>of_int r - x / s\<bar> * \<bar>s\<bar>" by (rule abs_mult)
  also have "\<dots> = \<bar>of_int r - x / s\<bar> * s" using s by simp
  also have "\<dots> \<le> 1 / 2 * s" using le s by (simp only: mult_le_cancel_right_pos)
  finally have "\<bar>of_int r * s - x\<bar> \<le> s / 2" by simp
  then show ?thesis unfolding nd s_def .
qed

lemma ilog2_less:
  assumes "0 < x" and "x < power_int 2 k"
  shows "ilog2 x < k"
proof (rule ccontr)
  assume "\<not> ilog2 x < k"
  then have "k \<le> ilog2 x" by simp
  then have "(power_int 2 k :: rat) \<le> power_int 2 (ilog2 x)"
    by (intro power_int_increasing) simp_all
  with ilog2_bounds[OF assms(1)] assms(2) show False by linarith
qed

text \<open>A decimal with two places between 100 and 5000 survives the conversion to a
  double and back.\<close>

lemma py_round_two_places_fixed:
  assumes "10000 \<le> n" and "n \<le> 500000"
  shows "py_round (nearest_double (of_int n / 100)) 2 = nearest_double (of_int n / 100)"
proof -
  define x :: rat where "x = of_int n / 100"
  have x: "0 < x" "x < power_int 2 13" using assms by (simp_all add: x_def)
  then have "ilog2 x < 13" by (intro ilog2_less)
  then have "ilog2 x - 52 \<le> - 40" by simp
  then have "(power_int 2 (ilog2 x - 52) :: rat) \<le> power_int 2 (- 40)"
    by (intro power_int_increasing) simp_all
  with nearest_double_pos_error[OF x(1)]
  have "\<bar>nearest_double_pos x - x\<bar> \<le> power_int 2 (- 40) / 2" by linarith
  then have e: "\<bar>nearest_double x - x\<bar> \<le> power_int 2 (- 40) / 2"
    using x(1) by (simp add: nearest_double_def)
  have "\<bar>nearest_double x * 100 - of_int n\<bar> = \<bar>(nearest_double x - x) * 100\<bar>"
    by (simp add: x_def left_diff_distrib)
  also have "\<dots> = \<bar>nearest_double x - x\<bar> * \<bar>100\<bar>" by (rule abs_mult)
  also have "\<dots> = \<bar>nearest_double x - x\<bar> * 100" by simp
  also have "\<dots> \<le> power_int 2 (- 40) / 2 * 100" using e by simp
  also have "\<dots> < 1 / 2" by (simp add: power_int_minus_divide)
  finally have "round_half_even (nearest_double x * 100) = n" by (rule round_half_even_near)
  then show ?thesis by (simp add: py_round_def x_def)
qed

lemma float_sub_5000_100: "float_sub 5000 100 = 4900"
  using nearest_double_int[of 4900] by (simp add: float_sub_def)

lemma rng_random_range: "0 \<le> fst (rng_random g) \<and> fst (rng_random g) < 1"
proof -
  obtain d g' where d: "next_draw g = (d, g')" by (cases "next_draw g")
  have "d mod 2 ^ 53 < 2 ^ 53" by simp
  then have "(of_nat (d mod 2 ^ 53) :: rat) < of_nat (2 ^ 53)" by (simp only: of_nat_less_iff)
  then have "(of_nat (d mod 2 ^ 53) :: rat) / 2 ^ 53 < 1" by simp
  then show ?thesis by (simp add: rng_random_def d)
qed

lemma uniform_range: "100 \<le> fst (uniform 100 5000 g) \<and> fst (uniform 100 5000 g) \<le> 5000"
proof -
  obtain r g' where r: "rng_random g = (r, g')" by (cases "rng_random g")
  with rng_random_range[of g] have r01: "0 \<le> r" "r < 1" by simp_all
  define t where "t = float_mul 4900 r"
  have "0 \<le> 4900 * r" "4900 * r \<le> of_int 4900" using r01 by simp_all
  then have t: "0 \<le> t" "t \<le> 4900"
    unfolding t_def float_mul_def
    using nearest_double_nonneg[of "4900 * r"] nearest_double_upper[of 4900 "4900 * r"]
    by simp_all
  have u: "fst (uniform 100 5000 g) = nearest_double (100 + t)"
    by (simp add: uniform_def r float_sub_5000_100 float_add_def t_def)
  have "of_int 100 \<le> 100 + t" "0 \<le> 100 + t" "100 + t \<le> of_int 5000" using t by simp_all
  then have "of_int 100 \<le> nearest_double (100 + t)" "nearest_double (100 + t) \<le> of_int 5000"
    using nearest_double_lower[of 100 "100 + t"] nearest_double_upper[of 5000 "100 + t"]
    by simp_all
  with u show ?thesis by simp
qed

lemma py_round_amount:
  assumes "100 \<le> u" and "u \<le> 5000"
  shows "100 \<le> py_round u 2 \<and> py_round u 2 \<le> 5000 \<and>
         py_round (py_round u 2) 2 = py_round u 2 \<and>
         (\<exists>n. py_round u 2 = nearest_double (of_int n / 100))"
proof -
  define n where "n = round_half_even (u * 100)"
  have p: "py_round u 2 = nearest_double (of_int n / 100)"
    by (simp add: py_round_def n_def)
  have lo: "of_int 10000 \<le> u * 100" and hi: "u * 100 \<le> of_int 500000"
    using assms by simp_all
  have n1: "10000 \<le> n" unfolding n_def using lo by (rule round_half_even_ge)
  have n2: "n \<le> 500000" unfolding n_def using hi by (rule round_half_even_le)
  note n = n1 n2
  from n have "(of_int 10000 :: rat) \<le> of_int n" "(of_int n :: rat) \<le> of_int 500000"
    by (simp_all only: of_int_le_iff)
  then have "of_int 100 \<le> (of_int n :: rat) / 100" "0 \<le> (of_int n :: rat) / 100"
    "(of_int n :: rat) / 100 \<le> of_int 5000" by simp_all
  then have "of_int 100 \<le> nearest_double (of_int n / 100)"
    "nearest_double (of_int n / 100) \<le> of_int 5000"
    using nearest_double_lower[of 100 "of_int n / 100"]
      nearest_double_upper[of 5000 "of_int n / 100"] by simp_all
  moreover have "py_round (nearest_double (of_int n / 100)) 2 = nearest_double (of_int n / 100)"
    using n by (rule py_round_two_places_fixed)
  ultimately show ?thesis unfolding p by auto
qed

text \<open>Two values that the interpreter shows, as a check of the model.\<close>

lemma ilog2_unique:
  assumes "0 < x" and "power_int 2 k \<le> x" and "x < power_int 2 (k + 1)"
  shows "ilog2 x = k"
proof (rule antisym)
  from ilog2_less[OF assms(1,3)] show "ilog2 x \<le> k" by simp
  show "k \<le> ilog2 x"
  proof (rule ccontr)
    assume "\<not> k \<le> ilog2 x"
    then have "ilog2 x + 1 \<le> k" by simp
    then have "(power_int 2 (ilog2 x + 1) :: rat) \<le> power_int 2 k"
      by (intro power_int_increasing) simp_all
    with ilog2_bounds[OF assms(1)] assms(2) show False by linarith
  qed
qed

text \<open>The double for one tenth, as \<open>float.as_integer_ratio\<close> shows it.\<close>

lemma nearest_double_tenth:
  "nearest_double (1 / 10) = 3602879701896397 / 36028797018963968"
proof -
  have e: "ilog2 (1 / 10) = - 4"
    by (rule ilog2_unique) (simp_all add: power_int_minus_divide)
  have r: "round_half_even (36028797018963968 / 5) = 7205759403792794"
    by (rule round_half_even_near) simp
  show ?thesis
    by (simp add: nearest_double_def nearest_double_pos_def e r power_int_minus_divide)
qed

text \<open>Ties go to the even neighbour: \<open>round(0.125, 2)\<close> is \<open>0.12\<close>.\<close>

lemma py_round_tie: "py_round (1 / 8) 2 = nearest_double (12 / 100)"
proof -
  have "\<lfloor>25 / 2 :: rat\<rfloor> = 12" by (rule floor_unique) simp_all
  then have "round_half_even (25 / 2) = 12" by (simp add: round_half_even_def Let_def)
  then show ?thesis by (simp add: py_round_def)
qed

section \<open>Properties of the seeding loops\<close>

lemma choice_ok:
  "seq \<noteq> [] \<Longrightarrow> \<exists>x g'. choice seq g = Inr (x, g') \<and> x \<in> set seq"
  by (cases "next_draw g") (simp add: choice_def)

lemma randint_ok:
  "a \<le> b \<Longrightarrow> \<exists>n g'. randint a b g = Inr (n, g') \<and> a \<le> n \<and> n \<le> b"
proof -
  assume ab: "a \<le> b"
  obtain d g' where d: "next_draw g = (d, g')" by (cases "next_draw g")
  from ab have "0 < nat (b - a + 1)" by simp
  then have "d mod nat (b - a + 1) < nat (b - a + 1)" by (rule mod_less_divisor)
  then have "int (d mod nat (b - a + 1)) < b - a + 1" by linarith
  with ab d show ?thesis by (simp add: randint_def)
qed

lemma product_categories_nonempty: "product_categories \<noteq> []"
  by (simp add: product_categories_def)

lemma customer_names_nonempty: "customer_names \<noteq> []"
  by (simp add: customer_names_def)

text \<open>One round of the inner loop.\<close>

lemma generate_day_sales_Suc:
  assumes "sales_person_ids \<noteq> []"
  shows "\<exists>p a c n g'.
           generate_day_sales (Suc k) sales_person_ids date sales_data g =
             generate_day_sales k sales_person_ids date (sales_data @ [(p, date, a, c, n)]) g' \<and>
           p \<in> set sales_person_ids \<and> 100 \<le> a \<and> a \<le> 5000 \<and> py_round a 2 = a \<and>
           (\<exists>i. a = nearest_double (of_int i / 100))"
proof -
  from choice_ok[OF assms] obtain p g1 where
    p: "choice sales_person_ids g = Inr (p, g1)" "p \<in> set sales_person_ids" by blast
  obtain u g2 where u: "uniform 100 5000 g1 = (u, g2)" by (cases "uniform 100 5000 g1")
  with uniform_range[of g1] have "100 \<le> u" "u \<le> 5000" by simp_all
  note a = py_round_amount[OF this]
  from choice_ok[OF product_categories_nonempty] obtain c g3 where
    c: "choice product_categories g2 = Inr (c, g3)" by blast
  from choice_ok[OF customer_names_nonempty] obtain n g4 where
    n: "choice customer_names g3 = Inr (n, g4)" by blast
  have "generate_day_sales (Suc k) sales_person_ids date sales_data g =
      generate_day_sales k sales_person_ids date
        (sales_data @ [(p, date, py_round u 2, c, n)]) g4"
    by (simp add: p u c n)
  with p(2) a show ?thesis by blast
qed

lemma generate_day_sales_ok:
  assumes "sales_person_ids \<noteq> []"
  shows "\<exists>new g'.
           generate_day_sales k sales_person_ids date sales_data g = Inr (sales_data @ new, g') \<and>
           length new = k \<and>
           (\<forall>t\<in>set new. fst t \<in> set sales_person_ids \<and> fst (snd t) = date \<and>
              100 \<le> fst (snd (snd t)) \<and> fst (snd (snd t)) \<le> 5000 \<and>
              py_round (fst (snd (snd t))) 2 = fst (snd (snd t)) \<and>
              (\<exists>i. fst (snd (snd t)) = nearest_double (of_int i / 100)))"
proof (induction k arbitrary: sales_data g)
  case 0
  show ?case by simp
next
  case (Suc k)
  from generate_day_sales_Suc[OF assms, of k date sales_data g]
  obtain p a c n g1 where
    step: "generate_day_sales (Suc k) sales_person_ids date sales_data g =
             generate_day_sales k sales_person_ids date (sales_data @ [(p, date, a, c, n)]) g1"
    and row: "p \<in> set sales_person_ids" "100 \<le> a" "a \<le> 5000" "py_round a 2 = a"
      "\<exists>i. a = nearest_double (of_int i / 100)"
    by blast
  from Suc.IH[of "sales_data @ [(p, date, a, c, n)]" g1]
  obtain new g' where
    rest: "generate_day_sales k sales_person_ids date (sales_data @ [(p, date, a, c, n)]) g1 =
             Inr ((sales_data @ [(p, date, a, c, n)]) @ new, g')"
    and len: "length new = k"
    and rows: "\<forall>t\<in>set new. fst t \<in> set sales_person_ids \<and> fst (snd t) = date \<and>
              100 \<le> fst (snd (snd t)) \<and> fst (snd (snd t)) \<le> 5000 \<and>
              py_round (fst (snd (snd t))) 2 = fst (snd (snd t)) \<and>
              (\<exists>i. fst (snd (snd t)) = nearest_double (of_int i / 100))"
    by blast
  let ?new = "(p, date, a, c, n) # new"
  have "generate_day_sales (Suc k) sales_person_ids date sales_data g =
          Inr (sales_data @ ?new, g')"
    using step rest by simp
  moreover have "length ?new = Suc k" using len by simp
  moreover have "\<forall>t\<in>set ?new. fst t \<in> set sales_person_ids \<and> fst (snd t) = date \<and>
              100 \<le> fst (snd (snd t)) \<and> fst (snd (snd t)) \<le> 5000 \<and>
              py_round (fst (snd (snd t))) 2 = fst (snd (snd t)) \<and>
              (\<exists>i. fst (snd (snd t)) = nearest_double (of_int i / 100))"
    using row rows by simp
  ultimately show ?case by blast
qed

text \<open>The outer loop: every offset gets between 5 and 15 tuples, dated its day.\<close>

lemma generate_sales_ok:
  assumes "sales_person_ids \<noteq> []" and "distinct offsets"
  shows "\<exists>new g'.
           generate_sales offsets sales_person_ids start_date sales_data g =
             Inr (sales_data @ new, g') \<and>
           (\<forall>t\<in>set new. fst t \<in> set sales_person_ids \<and>
              (\<exists>k\<in>set offsets. fst (snd t) = start_date + int k) \<and>
              100 \<le> fst (snd (snd t)) \<and> fst (snd (snd t)) \<le> 5000 \<and>
              py_round (fst (snd (snd t))) 2 = fst (snd (snd t)) \<and>
              (\<exists>i. fst (snd (snd t)) = nearest_double (of_int i / 100))) \<and>
           (\<forall>k\<in>set offsets.
              5 \<le> length (filter (\<lambda>t. fst (snd t) = start_date + int k) new) \<and>
              length (filter (\<lambda>t. fst (snd t) = start_date + int k) new) \<le> 15)"
  using assms(2)
proof (induction offsets arbitrary: sales_data g)
  case Nil
  show ?case by simp
next
  case (Cons day_offset offsets)
  from Cons.prems have fresh: "day_offset \<notin> set offsets" and dist: "distinct offsets"
    by simp_all
  from randint_ok[of 5 15 g] obtain num_sales g1 where
    n: "randint 5 15 g = Inr (num_sales, g1)" "5 \<le> num_sales" "num_sales \<le> 15"
    by auto
  from generate_day_sales_ok[OF assms(1), of "nat num_sales" "start_date + int day_offset"
      sales_data g1]
  obtain new1 g2 where
    day: "generate_day_sales (nat num_sales) sales_person_ids (start_date + int day_offset)
            sales_data g1 = Inr (sales_data @ new1, g2)"
    and len1: "length new1 = nat num_sales"
    and rows1: "\<forall>t\<in>set new1. fst t \<in> set sales_person_ids \<and>
              fst (snd t) = start_date + int day_offset \<and>
              100 \<le> fst (snd (snd t)) \<and> fst (snd (snd t)) \<le> 5000 \<and>
              py_round (fst (snd (snd t))) 2 = fst (snd (snd t)) \<and>
              (\<exists>i. fst (snd (snd t)) = nearest_double (of_int i / 100))"
    by blast
  from Cons.IH[OF dist, of "sales_data @ new1" g2]
  obtain new2 g' where
    rest: "generate_sales offsets sales_person_ids start_date (sales_data @ new1) g2 =
             Inr ((sales_data @ new1) @ new2, g')"
    and rows2: "\<forall>t\<in>set new2. fst t \<in> set sales_person_ids \<and>
              (\<exists>k\<in>set offsets. fst (snd t) = start_date + int k) \<and>
              100 \<le> fst (snd (snd t)) \<and> fst (snd (snd t)) \<le> 5000 \<and>
              py_round (fst (snd (snd t))) 2 = fst (snd (snd t)) \<and>
              (\<exists>i. fst (snd (snd t)) = nearest_double (of_int i / 100))"
    and counts2: "\<forall>k\<in>set offsets.
              5 \<le> length (filter (\<lambda>t. fst (snd t) = start_date + int k) new2) \<and>
              length (filter (\<lambda>t. fst (snd t) = start_date + int k) new2) \<le> 15"
    by blast
  have run: "generate_sales (day_offset # offsets) sales_person_ids start_date sales_data g =
          Inr (sales_data @ (new1 @ new2), g')"
    using n(1) day rest by simp
  have rows: "\<forall>t\<in>set (new1 @ new2). fst t \<in> set sales_person_ids \<and>
              (\<exists>k\<in>set (day_offset # offsets). fst (snd t) = start_date + int k) \<and>
              100 \<le> fst (snd (snd t)) \<and> fst (snd (snd t)) \<le> 5000 \<and>
              py_round (fst (snd (snd t))) 2 = fst (snd (snd t)) \<and>
              (\<exists>i. fst (snd (snd t)) = nearest_double (of_int i / 100))"
  proof
    fix t assume "t \<in> set (new1 @ new2)"
    then consider "t \<in> set new1" | "t \<in> set new2" by auto
    then show "fst t \<in> set sales_person_ids \<and>
              (\<exists>k\<in>set (day_offset # offsets). fst (snd t) = start_date + int k) \<and>
              100 \<le> fst (snd (snd t)) \<and> fst (snd (snd t)) \<le> 5000 \<and>
              py_round (fst (snd (snd t))) 2 = fst (snd (snd t)) \<and>
              (\<exists>i. fst (snd (snd t)) = nearest_double (of_int i / 100))"
    proof cases
      case 1
      with rows1 show ?thesis by simp
    next
      case 2
      with rows2 show ?thesis by simp
    qed
  qed
  have own1: "filter (\<lambda>t. fst (snd t) = start_date + int day_offset) new1 = new1"
    using rows1 by (simp add: filter_id_conv)
  have own2: "filter (\<lambda>t. fst (snd t) = start_date + int day_offset) new2 = []"
  proof -
    have "fst (snd t) \<noteq> start_date + int day_offset" if "t \<in> set new2" for t
    proof -
      from rows2 that obtain k where "k \<in> set offsets" "fst (snd t) = start_date + int k"
        by blast
      with fresh show ?thesis by auto
    qed
    then show ?thesis by (simp add: filter_empty_conv)
  qed
  have other1: "filter (\<lambda>t. fst (snd t) = start_date + int k) new1 = []"
    if "k \<in> set offsets" for k
  proof -
    from that fresh have "k \<noteq> day_offset" by auto
    with rows1 show ?thesis by (simp add: filter_empty_conv)
  qed
  have counts: "\<forall>k\<in>set (day_offset # offsets).
              5 \<le> length (filter (\<lambda>t. fst (snd t) = start_date + int k) (new1 @ new2)) \<and>
              length (filter (\<lambda>t. fst (snd t) = start_date + int k) (new1 @ new2)) \<le> 15"
  proof
    fix k assume "k \<in> set (day_offset # offsets)"
    then consider "k = day_offset" | "k \<in> set offsets" by auto
    then show "5 \<le> length (filter (\<lambda>t. fst (snd t) = start_date + int k) (new1 @ new2)) \<and>
              length (filter (\<lambda>t. fst (snd t) = start_date + int k) (new1 @ new2)) \<le> 15"
    proof cases
      case 1
      from n(2,3) have "5 \<le> nat num_sales" "nat num_sales \<le> 15" by linarith+
      with 1 own1 own2 len1 show ?thesis by simp
    next
      case 2
      with other1[OF 2] counts2 show ?thesis by simp
    qed
  qed
  from run rows counts show ?case by blast
qed

section \<open>Properties of the inserts\<close>

lemma table_rows_create [simp]: "table_rows (create_table_if_not_exists t) = table_rows t"
  by (cases t) (simp_all add: create_table_if_not_exists_def table_rows_def)

lemma create_table_exists [simp]: "create_table_if_not_exists t \<noteq> None"
  by (cases t) (simp_all add: create_table_if_not_exists_def)

lemma create_table_Some: "t \<noteq> None \<Longrightarrow> create_table_if_not_exists t = t"
  by (cases t) (simp_all add: create_table_if_not_exists_def)

lemma table_rows_nonempty_exists: "table_rows t \<noteq> [] \<Longrightarrow> t \<noteq> None"
  by (cases t) (simp_all add: table_rows_def)

lemma insert_sale_rows:
  "table_rows (sales (insert_sale (p, d, a, c, n) db)) =
     table_rows (sales db) @
       [\<lparr>sale_id = next_rowid (seq_sales db) (map sale_id (table_rows (sales db))),
         sales_person_id = p, sale_date = d, amount = a, product_category = c,
         customer_name = n\<rparr>]"
  by (simp add: insert_sale_def Let_def table_rows_def)

lemma insert_sale_other:
  "sales_people (insert_sale v db) = sales_people db \<and>
   seq_sales_people (insert_sale v db) = seq_sales_people db \<and>
   sales (insert_sale v db) \<noteq> None"
  by (cases v) (simp add: insert_sale_def Let_def)

text \<open>
  \<open>executemany\<close> on the sales table appends one row for each tuple, in order, with the
  tuple's values, and leaves the sales people alone.
\<close>

lemma executemany_sales_rows:
  "\<exists>rows. table_rows (sales (executemany_sales sales_data db)) = table_rows (sales db) @ rows \<and>
          map (\<lambda>s. (sales_person_id s, sale_date s, amount s, product_category s,
                     customer_name s)) rows = sales_data"
proof (induction sales_data arbitrary: db)
  case Nil
  show ?case by simp
next
  case (Cons v vs)
  obtain p d a c n where v: "v = (p, d, a, c, n)" by (cases v)
  from Cons.IH[of "insert_sale v db"] obtain rows where
    r: "table_rows (sales (executemany_sales vs (insert_sale v db))) =
          table_rows (sales (insert_sale v db)) @ rows"
       "map (\<lambda>s. (sales_person_id s, sale_date s, amount s, product_category s,
                     customer_name s)) rows = vs"
    by blast
  let ?row = "\<lparr>sale_id = next_rowid (seq_sales db) (map sale_id (table_rows (sales db))),
         sales_person_id = p, sale_date = d, amount = a, product_category = c,
         customer_name = n\<rparr>"
  have a: "table_rows (sales (executemany_sales (v # vs) db)) =
          table_rows (sales db) @ (?row # rows)"
    using r(1) by (simp add: v insert_sale_rows)
  have b: "map (\<lambda>s. (sales_person_id s, sale_date s, amount s, product_category s,
                     customer_name s)) (?row # rows) = v # vs"
    using r(2) by (simp add: v)
  show ?case by (rule exI[of _ "?row # rows"]) (rule conjI[OF a b])
qed

lemma executemany_sales_other:
  "sales_people (executemany_sales sales_data db) = sales_people db \<and>
   seq_sales_people (executemany_sales sales_data db) = seq_sales_people db \<and>
   (sales db \<noteq> None \<longrightarrow> sales (executemany_sales sales_data db) \<noteq> None)"
proof (induction sales_data arbitrary: db)
  case Nil
  show ?case by simp
next
  case (Cons v vs)
  from Cons.IH[of "insert_sale v db"] insert_sale_other[of v db] show ?case by simp
qed

lemma insert_sales_person_ok:
  assumes "e \<notin> set (map sp_email (table_rows (sales_people db)))"
  shows "\<exists>db'. insert_sales_person (n, e, r, h, q) db = Inr db' \<and>
           map sp_email (table_rows (sales_people db')) =
             map sp_email (table_rows (sales_people db)) @ [e] \<and>
           sales_people db' \<noteq> None \<and> sales db' = sales db \<and> seq_sales db' = seq_sales db"
  using assms by (simp add: insert_sales_person_def Let_def table_rows_def)

text \<open>
  Rows whose emails are distinct and not in the table yet are all inserted: the
  \<open>UNIQUE\<close> constraint does not fire.
\<close>

lemma executemany_sales_people_ok:
  assumes "distinct (map (\<lambda>v. fst (snd v)) vs)"
    and "set (map (\<lambda>v. fst (snd v)) vs) \<inter>
           set (map sp_email (table_rows (sales_people db))) = {}"
  shows "\<exists>db'. executemany_sales_people vs db = Inr db' \<and>
           length (table_rows (sales_people db')) =
             length (table_rows (sales_people db)) + length vs \<and>
           (sales_people db \<noteq> None \<longrightarrow> sales_people db' \<noteq> None) \<and>
           sales db' = sales db \<and> seq_sales db' = seq_sales db"
  using assms
proof (induction vs arbitrary: db)
  case Nil
  show ?case by simp
next
  case (Cons v vs)
  obtain n e r h q where v: "v = (n, e, r, h, q)" by (cases v)
  from Cons.prems(2) have "e \<notin> set (map sp_email (table_rows (sales_people db)))"
    by (simp add: v)
  from insert_sales_person_ok[OF this, of n r h q] obtain db1 where
    one: "insert_sales_person (n, e, r, h, q) db = Inr db1"
    and emails1: "map sp_email (table_rows (sales_people db1)) =
             map sp_email (table_rows (sales_people db)) @ [e]"
    and other1: "sales_people db1 \<noteq> None" "sales db1 = sales db" "seq_sales db1 = seq_sales db"
    by blast
  from emails1 have "length (map sp_email (table_rows (sales_people db1))) =
      length (map sp_email (table_rows (sales_people db)) @ [e])" by (rule arg_cong)
  then have len1: "length (table_rows (sales_people db1)) =
      Suc (length (table_rows (sales_people db)))" by simp
  from Cons.prems(1) have d: "distinct (map (\<lambda>v. fst (snd v)) vs)"
    and ne: "e \<notin> set (map (\<lambda>v. fst (snd v)) vs)"
    by (simp_all add: v)
  from Cons.prems(2) have
    "set (map (\<lambda>v. fst (snd v)) vs) \<inter> set (map sp_email (table_rows (sales_people db))) = {}"
    by auto
  with ne have
    "set (map (\<lambda>v. fst (snd v)) vs) \<inter> set (map sp_email (table_rows (sales_people db1))) = {}"
    unfolding emails1 by auto
  from Cons.IH[OF d this] obtain db' where
    rest: "executemany_sales_people vs db1 = Inr db'"
    and len: "length (table_rows (sales_people db')) =
             length (table_rows (sales_people db1)) + length vs"
    and other: "sales_people db1 \<noteq> None \<longrightarrow> sales_people db' \<noteq> None"
      "sales db' = sales db1" "seq_sales db' = seq_sales db1"
    by blast
  have "executemany_sales_people (v # vs) db = Inr db'" using one rest by (simp add: v)
  with len len1 other other1 show ?case by simp
qed

lemma sample_sales_people_emails:
  "distinct (map (\<lambda>v. fst (snd v)) sample_sales_people)"
  by (simp add: sample_sales_people_def)

lemma sample_sales_people_length: "length sample_sales_people = 8"
  by (simp add: sample_sales_people_def)

section \<open>Properties of init_database\<close>

text \<open>
  A run that finds the sales people table empty never raises.  It leaves the eight
  sample people in the table and appends to the sales table the rows generated; each
  of them names one of these people, is dated one of the 90 days before \<open>now\<close> and
  has an amount from 100 to 5000 that \<open>round(_, 2)\<close> leaves as it is; each of the 90
  days has from 5 to 15 of them.
\<close>

lemma init_database_seeds:
  assumes "table_rows (sales_people db) = []"
  shows "\<exists>db' g' new.
           init_database db g now = Inr (db', g') \<and>
           length (table_rows (sales_people db')) = 8 \<and>
           sales_people db' \<noteq> None \<and> sales db' \<noteq> None \<and>
           table_rows (sales db') = table_rows (sales db) @ new \<and>
           (\<forall>s\<in>set new.
              sales_person_id s \<in> sp_id ` set (table_rows (sales_people db')) \<and>
              (\<exists>k<90. sale_date s = now - 90 + int k) \<and>
              100 \<le> amount s \<and> amount s \<le> 5000 \<and>
              py_round (amount s) 2 = amount s \<and>
              (\<exists>i. amount s = nearest_double (of_int i / 100))) \<and>
           (\<forall>k<90.
              5 \<le> length (filter (\<lambda>s. sale_date s = now - 90 + int k) new) \<and>
              length (filter (\<lambda>s. sale_date s = now - 90 + int k) new) \<le> 15)"
proof -
  define db0 where
    "db0 = db\<lparr>sales_people := create_table_if_not_exists (sales_people db),
               sales := create_table_if_not_exists (sales db)\<rparr>"
  have empty0: "table_rows (sales_people db0) = []" using assms by (simp add: db0_def)
  have exists0: "sales_people db0 \<noteq> None" "sales db0 \<noteq> None" by (simp_all add: db0_def)
  have sales0: "table_rows (sales db0) = table_rows (sales db)" by (simp add: db0_def)
  have "set (map (\<lambda>v. fst (snd v)) sample_sales_people) \<inter>
          set (map sp_email (table_rows (sales_people db0))) = {}"
    by (simp add: empty0)
  from executemany_sales_people_ok[OF sample_sales_people_emails this]
  obtain db1 where
    people: "executemany_sales_people sample_sales_people db0 = Inr db1"
    and len: "length (table_rows (sales_people db1)) = 8"
    and exists1: "sales_people db1 \<noteq> None" "sales db1 \<noteq> None"
    and sales1: "table_rows (sales db1) = table_rows (sales db)"
    using empty0 exists0 sales0 sample_sales_people_length by auto
  define ids where "ids = map sp_id (table_rows (sales_people db1))"
  have ids: "ids \<noteq> []" using len by (auto simp: ids_def)
  have "distinct [0..<90]" by simp
  from generate_sales_ok[OF ids this, of "now - 90" "[]" g]
  obtain sales_data g' where
    gen: "generate_sales [0..<90] ids (now - 90) [] g = Inr (sales_data, g')"
    and tuples: "\<forall>t\<in>set sales_data. fst t \<in> set ids \<and>
              (\<exists>k\<in>set [0..<90]. fst (snd t) = now - 90 + int k) \<and>
              100 \<le> fst (snd (snd t)) \<and> fst (snd (snd t)) \<le> 5000 \<and>
              py_round (fst (snd (snd t))) 2 = fst (snd (snd t)) \<and>
              (\<exists>i. fst (snd (snd t)) = nearest_double (of_int i / 100))"
    and counts: "\<forall>k\<in>set [0..<90].
              5 \<le> length (filter (\<lambda>t. fst (snd t) = now - 90 + int k) sales_data) \<and>
              length (filter (\<lambda>t. fst (snd t) = now - 90 + int k) sales_data) \<le> 15"
    by auto
  define db' where "db' = executemany_sales sales_data db1"
  have run: "init_database db g now = Inr (db', g')"
    using empty0 people gen
    by (simp add: init_database_def Let_def db0_def[symmetric] ids_def[symmetric] db'_def)
  from executemany_sales_rows[of sales_data db1] obtain new where
    new: "table_rows (sales db') = table_rows (sales db1) @ new"
    and proj: "map (\<lambda>s. (sales_person_id s, sale_date s, amount s, product_category s,
                     customer_name s)) new = sales_data"
    unfolding db'_def by blast
  from executemany_sales_other[of sales_data db1] exists1
  have same: "sales_people db' = sales_people db1" and exists': "sales db' \<noteq> None"
    unfolding db'_def by simp_all
  have rows: "\<forall>s\<in>set new.
              sales_person_id s \<in> sp_id ` set (table_rows (sales_people db')) \<and>
              (\<exists>k<90. sale_date s = now - 90 + int k) \<and>
              100 \<le> amount s \<and> amount s \<le> 5000 \<and>
              py_round (amount s) 2 = amount s \<and>
              (\<exists>i. amount s = nearest_double (of_int i / 100))"
  proof
    fix s assume "s \<in> set new"
    then have "(sales_person_id s, sale_date s, amount s, product_category s, customer_name s)
        \<in> set sales_data"
      unfolding proj[symmetric] by (simp add: image_iff) blast
    with tuples have "sales_person_id s \<in> set ids"
      "\<exists>k\<in>set [0..<90]. sale_date s = now - 90 + int k"
      "100 \<le> amount s" "amount s \<le> 5000" "py_round (amount s) 2 = amount s"
      "\<exists>i. amount s = nearest_double (of_int i / 100)"
      by fastforce+
    then show "sales_person_id s \<in> sp_id ` set (table_rows (sales_people db')) \<and>
              (\<exists>k<90. sale_date s = now - 90 + int k) \<and>
              100 \<le> amount s \<and> amount s \<le> 5000 \<and>
              py_round (amount s) 2 = amount s \<and>
              (\<exists>i. amount s = nearest_double (of_int i / 100))"
      by (auto simp: ids_def same)
  qed
  have days: "\<forall>k<90.
              5 \<le> length (filter (\<lambda>s. sale_date s = now - 90 + int k) new) \<and>
              length (filter (\<lambda>s. sale_date s = now - 90 + int k) new) \<le> 15"
  proof (intro allI impI)
    fix k :: nat assume "k < 90"
    then have k: "k \<in> set [0..<90]" by simp
    have "length (filter (\<lambda>t. fst (snd t) = now - 90 + int k) sales_data) =
          length (filter (\<lambda>s. sale_date s = now - 90 + int k) new)"
      unfolding proj[symmetric] by (simp add: filter_map comp_def)
    with counts k
    show "5 \<le> length (filter (\<lambda>s. sale_date s = now - 90 + int k) new) \<and>
              length (filter (\<lambda>s. sale_date s = now - 90 + int k) new) \<le> 15"
      by fastforce
  qed
  have "init_database db g now = Inr (db', g') \<and>
           length (table_rows (sales_people db')) = 8 \<and>
           sales_people db' \<noteq> None \<and> sales db' \<noteq> None \<and>
           table_rows (sales db') = table_rows (sales db) @ new \<and>
           (\<forall>s\<in>set new.
              sales_person_id s \<in> sp_id ` set (table_rows (sales_people db')) \<and>
              (\<exists>k<90. sale_date s = now - 90 + int k) \<and>
              100 \<le> amount s \<and> amount s \<le> 5000 \<and>
              py_round (amount s) 2 = amount s \<and>
              (\<exists>i. amount s = nearest_double (of_int i / 100))) \<and>
           (\<forall>k<90.
              5 \<le> length (filter (\<lambda>s. sale_date s = now - 90 + int k) new) \<and>
              length (filter (\<lambda>s. sale_date s = now - 90 + int k) new) \<le> 15)"
    using run len same exists1(1) exists' new sales1 rows days by simp
  then show ?thesis by (intro exI)
qed

text \<open>A run that finds a sales person returns the database it found, with the sales
  table created if it was missing, and does not touch the generator.\<close>

lemma init_database_skips:
  assumes "table_rows (sales_people db) \<noteq> []"
  shows "init_database db g now =
           Inr (db\<lparr>sales := create_table_if_not_exists (sales db)\<rparr>, g)"
proof -
  from assms have "sales_people db \<noteq> None" by (rule table_rows_nonempty_exists)
  then have "create_table_if_not_exists (sales_people db) = sales_people db"
    by (rule create_table_Some)
  with assms show ?thesis by (simp add: init_database_def Let_def)
qed

lemma init_database_again:
  assumes "table_rows (sales_people db) \<noteq> []" and "sales db \<noteq> None"
  shows "init_database db g now = Inr (db, g)"
  using init_database_skips[OF assms(1)] create_table_Some[OF assms(2)] by simp

section \<open>The bootstrapper claims\<close>

lemma example_seeded_rows: "table_rows (sales_people example_seeded) \<noteq> []"
  by (simp add: example_seeded_def table_rows_def)

lemma empty_database_rows: "table_rows (sales_people empty_database) = []"
  by (simp add: empty_database_def table_rows_def)

text \<open>
  C1.  A run that finds a row in the sales people table inserts nothing: it returns a
  database with the same rows in both tables, whatever the sales table held (or whether
  it existed), and the generator as it was.  And after a first run on a database whose
  sales people table is empty or missing, such as a new file, which never raises and
  leaves eight sales people, a second run, at any time and with any generator, returns
  that very database: the row count after two runs is the row count after one.
\<close>

theorem init_database_idempotent:
  "(table_rows (sales_people db) \<noteq> [] \<longrightarrow>
      (\<exists>db'. init_database db g now = Inr (db', g) \<and>
         table_rows (sales_people db') = table_rows (sales_people db) \<and>
         table_rows (sales db') = table_rows (sales db))) \<and>
   (table_rows (sales_people db0) = [] \<longrightarrow>
      (\<exists>db1 g1. init_database db0 g now = Inr (db1, g1) \<and>
         length (table_rows (sales_people db1)) = 8 \<and>
         init_database db1 g2 now2 = Inr (db1, g2)))"
proof (intro conjI impI)
  assume "table_rows (sales_people db) \<noteq> []"
  from init_database_skips[OF this, of g now]
  show "\<exists>db'. init_database db g now = Inr (db', g) \<and>
         table_rows (sales_people db') = table_rows (sales_people db) \<and>
         table_rows (sales db') = table_rows (sales db)"
    by simp
next
  assume "table_rows (sales_people db0) = []"
  from init_database_seeds[OF this, of g now] obtain db1 g1 where
    run: "init_database db0 g now = Inr (db1, g1)"
    and len: "length (table_rows (sales_people db1)) = 8"
    and ex: "sales db1 \<noteq> None"
    by blast
  from len have "table_rows (sales_people db1) \<noteq> []" by auto
  from init_database_again[OF this ex] have "init_database db1 g2 now2 = Inr (db1, g2)" .
  with run len show "\<exists>db1 g1. init_database db0 g now = Inr (db1, g1) \<and>
         length (table_rows (sales_people db1)) = 8 \<and>
         init_database db1 g2 now2 = Inr (db1, g2)"
    by (intro exI conjI)
qed

theorem init_database_idempotent_witness:
  "table_rows (sales_people example_seeded) \<noteq> [] \<and>
   (\<exists>db'. init_database example_seeded example_rng 739924 = Inr (db', example_rng) \<and>
      table_rows (sales_people db') = table_rows (sales_people example_seeded) \<and>
      table_rows (sales db') = table_rows (sales example_seeded)) \<and>
   table_rows (sales_people empty_database) = [] \<and>
   (\<exists>db1 g1. init_database empty_database example_rng 739924 = Inr (db1, g1) \<and>
      length (table_rows (sales_people db1)) = 8 \<and>
      init_database db1 example_rng 739925 = Inr (db1, example_rng))"
  using init_database_idempotent[of example_seeded example_rng 739924 empty_database
      example_rng 739925]
    example_seeded_rows empty_database_rows
  by (intro conjI) (assumption | (erule conjE, erule (1) impE, assumption))+

text \<open>
  C2.  A seeding run (one that finds no sales person) never raises, and every row it
  appends to the sales table has as \<open>sales_person_id\<close> the id of a row of the sales
  people table after the run; these are the rows inserted by this run, as the table
  was empty before.
\<close>

theorem seeded_sales_reference_people:
  assumes "table_rows (sales_people db) = []"
  shows "\<exists>db' g' new.
           init_database db g now = Inr (db', g') \<and>
           table_rows (sales db') = table_rows (sales db) @ new \<and>
           (\<forall>s\<in>set new. sales_person_id s \<in> sp_id ` set (table_rows (sales_people db')))"
proof -
  from init_database_seeds[OF assms, of g now] obtain db' g' new where
    "init_database db g now = Inr (db', g')"
    "table_rows (sales db') = table_rows (sales db) @ new"
    "\<forall>s\<in>set new. sales_person_id s \<in> sp_id ` set (table_rows (sales_people db'))"
    by blast
  then show ?thesis by (intro exI conjI)
qed

theorem seeded_sales_reference_people_witness:
  "table_rows (sales_people empty_database) = [] \<and>
   (\<exists>db' g' new.
      init_database empty_database example_rng 739924 = Inr (db', g') \<and>
      table_rows (sales db') = table_rows (sales empty_database) @ new \<and>
      (\<forall>s\<in>set new. sales_person_id s \<in> sp_id ` set (table_rows (sales_people db'))))"
  using empty_database_rows
    seeded_sales_reference_people[OF empty_database_rows, of example_rng 739924]
  by (rule conjI)

text \<open>
  C3.  A seeding run appends to the sales table rows dated the 90 days \<open>now - 90\<close>,
  \<open>\<dots>\<close>, \<open>now - 1\<close> and no other day, and for each of these 90 days the number of
  rows it appends with that date is from 5 to 15.
\<close>

theorem seeded_sales_per_day:
  assumes "table_rows (sales_people db) = []"
  shows "\<exists>db' g' new.
           init_database db g now = Inr (db', g') \<and>
           table_rows (sales db') = table_rows (sales db) @ new \<and>
           (\<forall>s\<in>set new. \<exists>k<90. sale_date s = now - 90 + int k) \<and>
           (\<forall>k<90.
              5 \<le> length (filter (\<lambda>s. sale_date s = now - 90 + int k) new) \<and>
              length (filter (\<lambda>s. sale_date s = now - 90 + int k) new) \<le> 15)"
proof -
  from init_database_seeds[OF assms, of g now] obtain db' g' new where
    "init_database db g now = Inr (db', g')"
    "table_rows (sales db') = table_rows (sales db) @ new"
    "\<forall>s\<in>set new. \<exists>k<90. sale_date s = now - 90 + int k"
    "\<forall>k<90.
              5 \<le> length (filter (\<lambda>s. sale_date s = now - 90 + int k) new) \<and>
              length (filter (\<lambda>s. sale_date s = now - 90 + int k) new) \<le> 15"
    by blast
  then show ?thesis by (intro exI conjI)
qed

theorem seeded_sales_per_day_witness:
  "table_rows (sales_people empty_database) = [] \<and>
   (\<exists>db' g' new.
      init_database empty_database example_rng 739924 = Inr (db', g') \<and>
      table_rows (sales db') = table_rows (sales empty_database) @ new \<and>
      (\<forall>s\<in>set new. \<exists>k<90. sale_date s = 739924 - 90 + int k) \<and>
      (\<forall>k<90.
         5 \<le> length (filter (\<lambda>s. sale_date s = 739924 - 90 + int k) new) \<and>
         length (filter (\<lambda>s. sale_date s = 739924 - 90 + int k) new) \<le> 15))"
  using empty_database_rows
    seeded_sales_per_day[OF empty_database_rows, of example_rng 739924]
  by (rule conjI)

text \<open>
  C4.  Every row that a seeding run appends has an amount from 100 to 5000, and the
  amount is rounded to two decimals: it is the double nearest to a decimal number
  with two places, \<open>i / 100\<close> for an integer \<open>i\<close>, and \<open>round(amount, 2)\<close>
  gives the amount back.
\<close>

theorem seeded_sales_amounts:
  assumes "table_rows (sales_people db) = []"
  shows "\<exists>db' g' new.
           init_database db g now = Inr (db', g') \<and>
           table_rows (sales db') = table_rows (sales db) @ new \<and>
           (\<forall>s\<in>set new.
              100 \<le> amount s \<and> amount s \<le> 5000 \<and>
              py_round (amount s) 2 = amount s \<and>
              (\<exists>i. amount s = nearest_double (of_int i / 100)))"
proof -
  from init_database_seeds[OF assms, of g now] obtain db' g' new where
    "init_database db g now = Inr (db', g')"
    "table_rows (sales db') = table_rows (sales db) @ new"
    "\<forall>s\<in>set new.
              100 \<le> amount s \<and> amount s \<le> 5000 \<and>
              py_round (amount s) 2 = amount s \<and>
              (\<exists>i. amount s = nearest_double (of_int i / 100))"
    by blast
  then show ?thesis by (intro exI conjI)
qed

theorem seeded_sales_amounts_witness:
  "table_rows (sales_people empty_database) = [] \<and>
   (\<exists>db' g' new.
      init_database empty_database example_rng 739924 = Inr (db', g') \<and>
      table_rows (sales db') = table_rows (sales empty_database) @ new \<and>
      (\<forall>s\<in>set new.
         100 \<le> amount s \<and> amount s \<le> 5000 \<and>
         py_round (amount s) 2 = amount s \<and>
         (\<exists>i. amount s = nearest_double (of_int i / 100))))"
  using empty_database_rows
    seeded_sales_amounts[OF empty_database_rows, of example_rng 739924]
  by (rule conjI)

end
